theory Spec2Isabelle
  imports Complex_Main "HOL-Library.Word" "HOL-Library.Log_Nat"
begin

section \<open>JavaScript numbers and typed arrays\<close>

text \<open>
  The transport keeps its indices in an \<open>Int32Array\<close> header and its data in typed
  arrays. Index arithmetic in the source is done on JavaScript numbers (exact for the
  magnitudes involved) and only the store into the header wraps to 32 bits.
\<close>

type_synonym byte = "8 word"

text \<open>\<open>Atomics.store\<close> into an \<open>Int32Array\<close>: the value modulo \<open>2^32\<close>, read back signed.\<close>

definition to_int32 :: "int \<Rightarrow> int" where
  "to_int32 x = (x + 2147483648) mod 4294967296 - 2147483648"

text \<open>
  The remainder operator \<open>%\<close> on integers: the result has the sign of the dividend.
  (For a zero divisor JavaScript yields NaN; the arrays indexed here are then empty, so
  the index is out of range either way.)
\<close>

definition js_rem :: "int \<Rightarrow> int \<Rightarrow> int" where
  "js_rem a n = (if a < 0 then - ((- a) mod n) else a mod n)"

text \<open>
  Element access on a typed array: a read out of range yields \<open>undefined\<close>
  (\<open>None\<close>), a write out of range is ignored.
\<close>

definition ta_get :: "'a list \<Rightarrow> int \<Rightarrow> 'a option" where
  "ta_get xs i = (if 0 \<le> i \<and> i < int (length xs) then Some (xs ! nat i) else None)"

definition ta_set :: "'a list \<Rightarrow> int \<Rightarrow> 'a \<Rightarrow> 'a list" where
  "ta_set xs i v = (if 0 \<le> i \<and> i < int (length xs) then xs[nat i := v] else xs)"

text \<open>
  Where the source divides (\<open>/\<close>) the quotient is a JavaScript number that need
  not be an integer; such values are rationals here. \<open>js_rem_nan\<close> is \<open>%\<close> with
  the NaN of a zero divisor as \<open>None\<close>; \<open>js_trunc\<close> is the truncation towards
  zero that \<open>Atomics.store\<close> applies before wrapping; \<open>ta_set_num\<close> is an element
  write whose index is such a number (a non-integer index is ignored).
\<close>

definition js_rem_nan :: "int \<Rightarrow> int \<Rightarrow> int option" where
  "js_rem_nan a n = (if n = 0 then None else Some (js_rem a n))"

definition js_trunc :: "rat \<Rightarrow> int" where
  "js_trunc x = (if 0 \<le> x then \<lfloor>x\<rfloor> else \<lceil>x\<rceil>)"

definition ta_set_num :: "'a list \<Rightarrow> rat \<Rightarrow> 'a \<Rightarrow> 'a list" where
  "ta_set_num xs i v = (if rat_of_int \<lfloor>i\<rfloor> = i then ta_set xs \<lfloor>i\<rfloor> v else xs)"

text \<open>
  \<open>subarray(begin, end)\<close> and \<open>subarray(begin)\<close>: a negative index counts from
  the end, and both are clamped to the array.
\<close>

definition js_clamp :: "nat \<Rightarrow> int \<Rightarrow> nat" where
  "js_clamp len i = (if i < 0 then nat (max (int len + i) 0) else min (nat i) len)"

definition subarray :: "'a list \<Rightarrow> int \<Rightarrow> int \<Rightarrow> 'a list" where
  "subarray xs b e =
     (let b' = js_clamp (length xs) b; e' = js_clamp (length xs) e
      in take (e' - b') (drop b' xs))"

definition subarray_from :: "'a list \<Rightarrow> int \<Rightarrow> 'a list" where
  "subarray_from xs b = drop (js_clamp (length xs) b) xs"

text \<open>
  \<open>target.set(source, offset)\<close> throws a RangeError when the offset is negative or
  the source does not fit; otherwise it copies the whole source.
\<close>

datatype error = RangeError

definition ta_set_from :: "'a list \<Rightarrow> 'a list \<Rightarrow> int \<Rightarrow> error + 'a list" where
  "ta_set_from xs src off =
     (if off < 0 \<or> int (length xs) < int (length src) + off then Inl RangeError
      else Inr (take (nat off) xs @ src @ drop (nat off + length src) xs))"

text \<open>
  A JavaScript number is an IEEE double. A finite one is modelled by its rational value.
  The result of \<open>*\<close> or \<open>/\<close> is the exact result rounded to the nearest double,
  ties to the even significand: 53 significant bits, a quantum of \<open>2^-1074\<close> below
  \<open>2^-1022\<close>, and \<open>\<plusminus>Infinity\<close> when the rounded magnitude reaches \<open>2^1024\<close>.
  \<open>binade x\<close> is the exponent \<open>\<lfloor>log\<^sub>2 |x|\<rfloor>\<close> of a non-zero \<open>x\<close>. (The
  frame counts that the audio buffer obtains by \<open>/\<close> are only compared with integers
  and truncated, which gives the same for the exact quotient as for the rounded one; they
  are kept exact.)
\<close>

definition pow2 :: "int \<Rightarrow> rat" where
  "pow2 e = (if 0 \<le> e then 2 ^ nat e else 1 / 2 ^ nat (- e))"

definition binade :: "rat \<Rightarrow> int" where
  "binade x = (if 1 \<le> \<bar>x\<bar> then bitlen \<lfloor>\<bar>x\<bar>\<rfloor> - 1 else - bitlen (\<lceil>1 / \<bar>x\<bar>\<rceil> - 1))"

definition round_half_even :: "rat \<Rightarrow> int" where
  "round_half_even m =
     (let f = \<lfloor>m\<rfloor>; d = m - rat_of_int f
      in if d < 1 / 2 then f else if 1 / 2 < d then f + 1 else if even f then f else f + 1)"

definition round_double :: "rat \<Rightarrow> rat" where
  "round_double x =
     (if x = 0 then 0
      else let q = pow2 (max (binade x) (- 1022) - 52)
           in rat_of_int (round_half_even (x / q)) * q)"

text \<open>
  A JavaScript value where a number is expected: a finite number, \<open>+Infinity\<close>
  (\<open>Infinity True\<close>) or \<open>-Infinity\<close>, NaN, or \<open>undefined\<close>. \<open>js_number x\<close> is the
  number an operation yields whose exact result is \<open>x\<close>; \<open>js_floor\<close> is
  \<open>Math.floor\<close>; \<open>to_uint8\<close> is the conversion applied to an element of
  \<open>new Uint8Array([...])\<close>.
\<close>

datatype jsnum = Num rat | Infinity bool | NaN | Undefined

definition js_number :: "rat \<Rightarrow> jsnum" where
  "js_number x =
     (let y = round_double x
      in if 2 ^ 1024 \<le> \<bar>y\<bar> then Infinity (0 < y) else Num y)"

fun js_floor :: "jsnum \<Rightarrow> jsnum" where
  "js_floor (Num x) = Num (rat_of_int \<lfloor>x\<rfloor>)"
| "js_floor (Infinity s) = Infinity s"
| "js_floor NaN = NaN"
| "js_floor Undefined = NaN"

fun to_uint8 :: "jsnum \<Rightarrow> byte" where
  "to_uint8 (Num x) = word_of_int (js_trunc x)"
| "to_uint8 (Infinity s) = 0"
| "to_uint8 NaN = 0"
| "to_uint8 Undefined = 0"

section \<open>RingBuffer (ring\_buffer.js): the control queue\<close>

record ring_buffer =
  rb_writeIndex :: int
  rb_readIndex :: int
  rb_buffer :: "byte list"
  rb_tempBuffer :: "byte list option"

text \<open>\<open>this.size\<close> is the length of \<open>this.buffer\<close> (constructor).\<close>

definition rb_size :: "ring_buffer \<Rightarrow> nat" where
  "rb_size rb = length (rb_buffer rb)"

text \<open>\<open>new RingBuffer(null, size)\<close>: a zeroed region; size \<open>0\<close> falls back to 4096.\<close>

definition new_RingBuffer :: "nat \<Rightarrow> ring_buffer" where
  "new_RingBuffer sz =
     \<lparr>rb_writeIndex = 0, rb_readIndex = 0,
      rb_buffer = replicate (if sz = 0 then 4096 else sz) 0,
      rb_tempBuffer = None\<rparr>"

text \<open>The copy loop of \<open>write\<close>: \<open>buffer[(writeIndex + 1 + i) % size] = data[i]\<close>;
  \<open>pos\<close> is \<open>writeIndex + 1 + i\<close>.\<close>

fun write_data :: "byte list \<Rightarrow> int \<Rightarrow> byte list \<Rightarrow> byte list" where
  "write_data buf pos [] = buf"
| "write_data buf pos (d # ds) =
     write_data (ta_set buf (js_rem pos (int (length buf))) d) (pos + 1) ds"

definition RingBuffer_write :: "ring_buffer \<Rightarrow> byte list \<Rightarrow> bool \<times> ring_buffer" where
  "RingBuffer_write rb data =
     (let len = int (length data);
          required = len + 1;
          writeIndex = rb_writeIndex rb;
          readIndex = rb_readIndex rb;
          available = int (rb_size rb) - (writeIndex - readIndex)
      in if available < required then (False, rb)
         else
           let buf1 = ta_set (rb_buffer rb) (js_rem writeIndex (int (rb_size rb))) (word_of_int len);
               buf2 = write_data buf1 (writeIndex + 1) data
           in (True, rb\<lparr>rb_buffer := buf2, rb_writeIndex := to_int32 (writeIndex + required)\<rparr>))"

text \<open>The copy loop of \<open>read\<close>: \<open>temp[i] = buffer[(readIndex + 1 + i) % size]\<close> for
  \<open>i < length\<close>; an \<open>undefined\<close> source element is stored as \<open>0\<close>.\<close>

definition read_data :: "byte list \<Rightarrow> int \<Rightarrow> nat \<Rightarrow> byte list \<Rightarrow> byte list" where
  "read_data buf readIndex len temp =
     fold (\<lambda>i t. ta_set t (int i)
             (case ta_get buf (js_rem (readIndex + 1 + int i) (int (length buf))) of
                None \<Rightarrow> 0 | Some b \<Rightarrow> b))
          [0..<len] temp"

text \<open>
  The \<open>while (readIndex < writeIndex)\<close> loop of \<open>read\<close>. The result is the value
  finally stored as read index, the temp buffer, and the views handed to the callback in
  call order. When the length byte is \<open>undefined\<close> the source passes the whole temp
  buffer to the callback, \<open>readIndex\<close> becomes NaN, the loop ends and NaN is stored
  as \<open>0\<close>.
\<close>

function read_loop ::
  "byte list \<Rightarrow> int \<Rightarrow> int \<Rightarrow> byte list \<Rightarrow> int \<times> byte list \<times> byte list list" where
  "read_loop buf writeIndex readIndex temp =
     (if readIndex < writeIndex then
        (case ta_get buf (js_rem readIndex (int (length buf))) of
           None \<Rightarrow> (0, temp, [temp])
         | Some lb \<Rightarrow>
             (let len = unat lb;
                  temp1 = (if length temp < len then replicate (len + 64) 0 else temp);
                  temp2 = read_data buf readIndex len temp1;
                  view = take len temp2;
                  (r, t, vs) = read_loop buf writeIndex (readIndex + (int len + 1)) temp2
              in (r, t, view # vs)))
      else (readIndex, temp, []))"
  by pat_completeness auto
termination
proof (relation "measure (\<lambda>(buf, w, r, t). nat (w - r))")
  show "wf (measure (\<lambda>(buf, w, r, t). nat (w - r)))"
    by simp
next
  fix buf :: "byte list" and writeIndex readIndex :: int and temp :: "byte list"
    and lb :: byte and len temp1 temp2 view
  assume "readIndex < writeIndex" and "len = unat lb"
  moreover have "- 1 < uint lb"
    using uint_ge_0 [of lb] by linarith
  ultimately show "((buf, writeIndex, readIndex + (int len + 1), temp2),
                    (buf, writeIndex, readIndex, temp))
                   \<in> measure (\<lambda>(buf, w, r, t). nat (w - r))"
    by simp
qed

declare read_loop.simps [simp del]

definition RingBuffer_read :: "ring_buffer \<Rightarrow> byte list list \<times> ring_buffer" where
  "RingBuffer_read rb =
     (let writeIndex = rb_writeIndex rb;
          readIndex = rb_readIndex rb
      in if readIndex = writeIndex then ([], rb)
         else
           let temp0 = (case rb_tempBuffer rb of None \<Rightarrow> replicate 256 0 | Some t \<Rightarrow> t);
               (r, t, vs) = read_loop (rb_buffer rb) writeIndex readIndex temp0
           in (vs, rb\<lparr>rb_readIndex := to_int32 r, rb_tempBuffer := Some t\<rparr>))"

section \<open>AudioRingBuffer (audio\_ring\_buffer.js): the audio stream\<close>

text \<open>
  Samples are the 32-bit patterns a \<open>Float32Array\<close> holds; \<open>f32_nan\<close> is what it
  stores for an \<open>undefined\<close> source element.
\<close>

type_synonym f32 = "32 word"

definition f32_nan :: f32 where
  "f32_nan = 2143289344"

definition sample_at :: "f32 list \<Rightarrow> int \<Rightarrow> f32" where
  "sample_at src i = (case ta_get src i of None \<Rightarrow> f32_nan | Some v \<Rightarrow> v)"

record audio_ring_buffer =
  arb_channelCount :: nat
  arb_capacity :: nat
  arb_writeIndex :: int
  arb_readIndex :: int
  arb_buffer :: "f32 list"

text \<open>\<open>new AudioRingBuffer(null, channelCount, frameCapacity)\<close>: a zero argument
  falls back to 2 channels, 4096 frames.\<close>

definition new_AudioRingBuffer :: "nat \<Rightarrow> nat \<Rightarrow> audio_ring_buffer" where
  "new_AudioRingBuffer channelCount frameCapacity =
     (let cc = (if channelCount = 0 then 2 else channelCount);
          cap = (if frameCapacity = 0 then 4096 else frameCapacity)
      in \<lparr>arb_channelCount = cc, arb_capacity = cap, arb_writeIndex = 0, arb_readIndex = 0,
          arb_buffer = replicate (cap * cc) 0\<rparr>)"

text \<open>\<open>new AudioRingBuffer(sab, channelCount)\<close>: a second view of an existing
  region; the capacity is recomputed from its length.\<close>

definition AudioRingBuffer_of_sab :: "audio_ring_buffer \<Rightarrow> nat \<Rightarrow> audio_ring_buffer" where
  "AudioRingBuffer_of_sab sab channelCount =
     (let cc = (if channelCount = 0 then 2 else channelCount)
      in sab\<lparr>arb_channelCount := cc, arb_capacity := length (arb_buffer sab) div cc\<rparr>)"

definition availableWrite :: "audio_ring_buffer \<Rightarrow> int" where
  "availableWrite arb = int (arb_capacity arb) - (arb_writeIndex arb - arb_readIndex arb)"

definition availableRead :: "audio_ring_buffer \<Rightarrow> int" where
  "availableRead arb = arb_writeIndex arb - arb_readIndex arb"

text \<open>
  The copy of \<open>write\<close>: one \<open>set\<close> when the block fits before the end of the
  region, two when it wraps. The result is the exception raised, if any, and the region
  as the copy left it (a first chunk stays written when the second \<open>set\<close> throws).
  With capacity \<open>0\<close> the offset is NaN: the comparison fails, the first chunk is empty
  and the whole input is set at \<open>0\<close>.
\<close>

definition write_copy ::
  "f32 list \<Rightarrow> f32 list \<Rightarrow> int option \<Rightarrow> nat \<Rightarrow> error option \<times> f32 list" where
  "write_copy buffer inputInterleaved m channelCount =
     (case m of
        None \<Rightarrow>
          (case ta_set_from buffer inputInterleaved 0 of
             Inl e \<Rightarrow> (Some e, buffer) | Inr b \<Rightarrow> (None, b))
      | Some k \<Rightarrow>
          (let offset = k * int channelCount;
               samplesToWrite = int (length inputInterleaved);
               bufferLength = int (length buffer)
           in if offset + samplesToWrite \<le> bufferLength then
                (case ta_set_from buffer inputInterleaved offset of
                   Inl e \<Rightarrow> (Some e, buffer) | Inr b \<Rightarrow> (None, b))
              else
                (let firstChunkSamples = bufferLength - offset
                 in case ta_set_from buffer (subarray inputInterleaved 0 firstChunkSamples) offset of
                      Inl e \<Rightarrow> (Some e, buffer)
                    | Inr b1 \<Rightarrow>
                        (case ta_set_from b1 (subarray_from inputInterleaved firstChunkSamples) 0 of
                           Inl e \<Rightarrow> (Some e, b1) | Inr b2 \<Rightarrow> (None, b2)))))"

text \<open>\<open>write\<close> returns the frames written (\<open>0\<close> when rejected), or throws.\<close>

definition AudioRingBuffer_write ::
  "audio_ring_buffer \<Rightarrow> f32 list \<Rightarrow> (error + rat) \<times> audio_ring_buffer" where
  "AudioRingBuffer_write arb inputInterleaved =
     (let framesToWrite = rat_of_nat (length inputInterleaved) / rat_of_nat (arb_channelCount arb);
          available = availableWrite arb
      in if rat_of_int available < framesToWrite then (Inr 0, arb)
         else
           (let writeIndex = arb_writeIndex arb;
                (err, buf) = write_copy (arb_buffer arb) inputInterleaved
                               (js_rem_nan writeIndex (int (arb_capacity arb))) (arb_channelCount arb)
            in case err of
                 Some e \<Rightarrow> (Inl e, arb\<lparr>arb_buffer := buf\<rparr>)
               | None \<Rightarrow>
                   (Inr framesToWrite,
                    arb\<lparr>arb_buffer := buf,
                        arb_writeIndex := to_int32 (js_trunc (rat_of_int writeIndex + framesToWrite))\<rparr>)))"

text \<open>
  The closure \<open>deinterleave(src, srcOffset, dstOffset, count)\<close> of \<open>read\<close>:
  iteration \<open>i\<close> stores \<open>src[srcOffset + 2 i]\<close> and \<open>src[srcOffset + 2 i + 1]\<close> at index
  \<open>dstOffset + i\<close> of the left and right output.
\<close>

definition deinterleave ::
  "f32 list \<Rightarrow> int \<Rightarrow> rat \<Rightarrow> rat \<Rightarrow> f32 list \<times> f32 list \<Rightarrow> f32 list \<times> f32 list" where
  "deinterleave src srcOffset dstOffset count outputChannels =
     fold (\<lambda>i (leftOut, rightOut).
             (ta_set_num leftOut (dstOffset + rat_of_nat i) (sample_at src (srcOffset + 2 * int i)),
              ta_set_num rightOut (dstOffset + rat_of_nat i) (sample_at src (srcOffset + 2 * int i + 1))))
          [0..<nat \<lceil>count\<rceil>] outputChannels"

definition AudioRingBuffer_read ::
  "audio_ring_buffer \<Rightarrow> f32 list \<times> f32 list \<Rightarrow> nat
     \<Rightarrow> bool \<times> audio_ring_buffer \<times> (f32 list \<times> f32 list)" where
  "AudioRingBuffer_read arb outputChannels framesToRead =
     (let available = availableRead arb
      in if available < int framesToRead then (False, arb, outputChannels)
         else
           (let readIndex = arb_readIndex arb;
                samplesToRead = int framesToRead * int (arb_channelCount arb);
                bufferLength = int (length (arb_buffer arb));
                out =
                  (case js_rem_nan readIndex (int (arb_capacity arb)) of
                     None \<Rightarrow> outputChannels
                   | Some k \<Rightarrow>
                       (let offset = k * int (arb_channelCount arb)
                        in if offset + samplesToRead \<le> bufferLength then
                             deinterleave (arb_buffer arb) offset 0 (rat_of_nat framesToRead) outputChannels
                           else
                             (let firstChunkSamples = bufferLength - offset;
                                  firstChunkFrames =
                                    rat_of_int firstChunkSamples / rat_of_nat (arb_channelCount arb)
                              in deinterleave (arb_buffer arb) 0 firstChunkFrames
                                   (rat_of_nat framesToRead - firstChunkFrames)
                                   (deinterleave (arb_buffer arb) offset 0 firstChunkFrames
                                      outputChannels))))
            in (True, arb\<lparr>arb_readIndex := to_int32 (readIndex + int framesToRead)\<rparr>, out)))"

section \<open>The engine handle\<close>

text \<open>
  The native synthesis engine is opaque. A handle is modelled by the calls it has
  received, oldest first; what the engine renders after a given history is a parameter
  \<open>dsp\<close> of the functions that read its output. An argument is the JavaScript
  value passed.
\<close>

datatype engine_call =
    Init nat rat
  | Note_on jsnum jsnum
  | Note_off jsnum
  | Render nat
  | Load_preset string

type_synonym engine = "engine_call list"

text \<open>The blocks an engine has been asked to render: the frame count of each
  \<open>_render\<close> call, in call order.\<close>

fun renders :: "engine \<Rightarrow> nat list" where
  "renders [] = []"
| "renders (Render n # calls) = n # renders calls"
| "renders (c # calls) = renders calls"

section \<open>The synthesis worker (piano\_worker.js)\<close>

definition CMD_NOTE_ON :: nat where
  "CMD_NOTE_ON = 1"

definition CMD_NOTE_OFF :: nat where
  "CMD_NOTE_OFF = 2"

text \<open>\<open>data[i]\<close> on the view handed to the drain callback.\<close>

definition view_elem :: "byte list \<Rightarrow> nat \<Rightarrow> jsnum" where
  "view_elem data i = (if i < length data then Num (rat_of_nat (unat (data ! i))) else Undefined)"

text \<open>\<open>x / c\<close> for a non-zero constant \<open>c\<close>.\<close>

fun js_divide :: "jsnum \<Rightarrow> rat \<Rightarrow> jsnum" where
  "js_divide (Num x) c = js_number (x / c)"
| "js_divide (Infinity s) c = Infinity (s = (0 < c))"
| "js_divide NaN c = NaN"
| "js_divide Undefined c = NaN"

text \<open>The callback \<open>processCommands\<close> passes to \<open>read\<close>.\<close>

definition command_callback :: "byte list \<Rightarrow> engine \<Rightarrow> engine" where
  "command_callback data moduleInstance =
     (let cmd = view_elem data 0
      in if cmd = Num (rat_of_nat CMD_NOTE_ON) then
           moduleInstance @ [Note_on (view_elem data 1) (js_divide (view_elem data 2) 127)]
         else if cmd = Num (rat_of_nat CMD_NOTE_OFF) then
           moduleInstance @ [Note_off (view_elem data 1)]
         else moduleInstance)"

text \<open>
  The worker's module-level state, from the point where \<open>initWasm\<close> has assigned
  \<open>moduleInstance\<close> (it is never cleared afterwards, and \<open>isReady\<close> is set only
  after it).
\<close>

record worker =
  wk_isReady :: bool
  wk_moduleInstance :: engine
  wk_audioRingBuffer :: "audio_ring_buffer option"
  wk_commandRingBuffer :: "ring_buffer option"
  wk_targetBufferSize :: rat
  wk_bufferSize :: nat

definition processCommands :: "worker \<Rightarrow> worker" where
  "processCommands wk =
     (case wk_commandRingBuffer wk of
        None \<Rightarrow> wk
      | Some rb \<Rightarrow>
          (let (views, rb') = RingBuffer_read rb
           in wk\<lparr>wk_commandRingBuffer := Some rb',
                 wk_moduleInstance := fold command_callback views (wk_moduleInstance wk)\<rparr>))"

text \<open>How \<open>renderLoop\<close> reschedules itself: \<open>setTimeout(renderLoop, ms)\<close> or
  \<open>queueMicrotask(renderLoop)\<close>.\<close>

datatype schedule = Timeout nat | Microtask

text \<open>The interleave loop: \<open>temp[2 i] = leftView[i]\<close>, \<open>temp[2 i + 1] = rightView[i]\<close>
  for \<open>i < bufferSize\<close>, on a temp buffer of \<open>2 * bufferSize\<close> samples.\<close>

definition interleave :: "f32 list \<Rightarrow> f32 list \<Rightarrow> nat \<Rightarrow> f32 list" where
  "interleave leftView rightView n =
     concat (map (\<lambda>i. [sample_at leftView (int i), sample_at rightView (int i)]) [0..<n])"

text \<open>One run of \<open>renderLoop\<close>: how it reschedules (or the exception that ends the
  loop) and the worker state it leaves. The block size is the constant \<open>128\<close> that
  \<open>init\<close> sends; the target is the SDK's \<open>bufferSize\<close>, any number.\<close>

definition renderLoop ::
  "(engine \<Rightarrow> f32 list \<times> f32 list) \<Rightarrow> worker \<Rightarrow> (error + schedule) \<times> worker" where
  "renderLoop dsp wk =
     (if \<not> wk_isReady wk then (Inr (Timeout 100), wk)
      else case wk_audioRingBuffer wk of
        None \<Rightarrow> (Inr (Timeout 100), wk)
      | Some audioRingBuffer \<Rightarrow>
          (let wk1 = processCommands wk;
               bufferedFrames = availableRead audioRingBuffer;
               TARGET_AHEAD = wk_targetBufferSize wk1
           in if rat_of_int bufferedFrames \<ge> TARGET_AHEAD then (Inr (Timeout 1), wk1)
              else if availableWrite audioRingBuffer < int (wk_bufferSize wk1) then
                (Inr (Timeout 1), wk1)
              else
                (let moduleInstance = wk_moduleInstance wk1 @ [Render (wk_bufferSize wk1)];
                     (leftView, rightView) = dsp moduleInstance;
                     tempBufferInterleaved = interleave leftView rightView (wk_bufferSize wk1);
                     (res, audioRingBuffer') = AudioRingBuffer_write audioRingBuffer tempBufferInterleaved;
                     wk2 = wk1\<lparr>wk_moduleInstance := moduleInstance,
                               wk_audioRingBuffer := Some audioRingBuffer'\<rparr>
                 in case res of
                      Inl e \<Rightarrow> (Inl e, wk2)
                    | Inr framesWritten \<Rightarrow>
                        if rat_of_int (availableRead audioRingBuffer') < TARGET_AHEAD
                        then (Inr Microtask, wk2)
                        else (Inr (Timeout 0), wk2))))"

text \<open>
  The worker's \<open>loadPreset\<close> (message \<open>load-preset\<close>): the bytes are handed to
  \<open>_load_preset\<close>, whose return code is not read, and \<open>preset-loaded\<close> is posted.
\<close>

datatype worker_message = Preset_loaded

definition worker_loadPreset :: "worker \<Rightarrow> string \<Rightarrow> worker \<times> worker_message list" where
  "worker_loadPreset wk presetData =
     (wk\<lparr>wk_moduleInstance := wk_moduleInstance wk @ [Load_preset presetData]\<rparr>, [Preset_loaded])"

section \<open>The output callback (piano\_worklet.js)\<close>

text \<open>
  \<open>VitalProcessor.process\<close> on \<open>outputs[0]\<close>: the value returned, the processor's
  ring buffer and the output channels afterwards.
\<close>

definition process ::
  "audio_ring_buffer option \<Rightarrow> f32 list list
     \<Rightarrow> bool \<times> audio_ring_buffer option \<times> f32 list list" where
  "process audioRingBuffer output =
     (case output of
        channelL # channelR # rest \<Rightarrow>
          (case audioRingBuffer of
             None \<Rightarrow> (True, None, output)
           | Some arb \<Rightarrow>
               (let blockSize = length channelL;
                    (success, arb', (l, r)) = AudioRingBuffer_read arb (channelL, channelR) blockSize
                in (True, Some arb', l # r # rest)))
      | _ \<Rightarrow> (True, audioRingBuffer, output))"

section \<open>VitalSDK (index.ts): the orchestrator\<close>

text \<open>
  The fields of \<open>VitalSDK\<close> that the control API reads. Browser objects are
  modelled by whether they exist (\<open>worker\<close>, the nodes, the two output pointers).
\<close>

record vital_sdk =
  sdk_bufferSize :: rat
  sdk_useWorklet :: bool
  sdk_initialized :: bool
  sdk_worker :: bool
  sdk_moduleInstance :: "engine option"
  sdk_outPtrs :: bool
  sdk_scriptNode :: bool
  sdk_workletNode :: bool
  sdk_ringBuffer :: "ring_buffer option"
  sdk_audioRingBuffer :: "audio_ring_buffer option"

text \<open>\<open>new VitalSDK({bufferSize, useWorklet})\<close>; the buffer size is the number the
  store read from the settings (\<open>0\<close> falls back to 1024).\<close>

definition new_VitalSDK :: "rat \<Rightarrow> bool \<Rightarrow> vital_sdk" where
  "new_VitalSDK bufferSize useWorklet =
     \<lparr>sdk_bufferSize = (if bufferSize = 0 then 1024 else bufferSize),
      sdk_useWorklet = useWorklet, sdk_initialized = False, sdk_worker = False,
      sdk_moduleInstance = None, sdk_outPtrs = False, sdk_scriptNode = False,
      sdk_workletNode = False, sdk_ringBuffer = None, sdk_audioRingBuffer = None\<rparr>"

text \<open>
  What the host does when \<open>init\<close> runs: which constructors and loads succeed, and
  how the worker answers the \<open>init\<close> message (\<open>ready\<close>, \<open>error\<close>, or nothing).
  The messages of the rejections stand for the host's own.
\<close>

datatype worker_reply = Reply_ready | Reply_error string | No_reply

record environment =
  env_audioContext :: bool
  env_sampleRate :: nat
  env_worker :: bool
  env_addModule :: bool
  env_sharedArrayBuffer :: bool
  env_workletNode :: bool
  env_workerReply :: worker_reply
  env_wasm :: bool
  env_scriptProcessor :: bool

text \<open>
  How a promise ends. \<open>init\<close> and its helpers return that together with the SDK
  object as they leave it: what a failed attempt has already created stays in the
  object (only \<open>destroy\<close> releases it).
\<close>

datatype outcome = Resolved | Rejected string | Pending

text \<open>
  \<open>_initWorkletAndWorker\<close>: the two shared regions, then the worklet node, then the
  exchange with the worker. The promise settles only in the worker's message handler
  (or when a constructor throws).
\<close>

definition initWorkletAndWorker :: "environment \<Rightarrow> vital_sdk \<Rightarrow> outcome \<times> vital_sdk" where
  "initWorkletAndWorker env sdk =
     (if \<not> sdk_worker sdk then (Resolved, sdk)
      else if \<not> env_sharedArrayBuffer env then (Rejected ''SharedArrayBuffer is not defined'', sdk)
      else
        (let sdk1 = sdk\<lparr>sdk_audioRingBuffer := Some (new_AudioRingBuffer 2 4096),
                       sdk_ringBuffer := Some (new_RingBuffer 4096)\<rparr>
         in if \<not> env_workletNode env then (Rejected ''AudioWorkletNode'', sdk1)
            else
              (let sdk2 = sdk1\<lparr>sdk_workletNode := True\<rparr>
               in case env_workerReply env of
                    Reply_ready \<Rightarrow> (Resolved, sdk2)
                  | Reply_error message \<Rightarrow> (Rejected message, sdk2)
                  | No_reply \<Rightarrow> (Pending, sdk2))))"

text \<open>\<open>_initScriptProcessor\<close>; \<open>createScriptProcessor\<close> throws on a buffer size the
  host does not accept.\<close>

definition initScriptProcessor :: "environment \<Rightarrow> vital_sdk \<Rightarrow> outcome \<times> vital_sdk" where
  "initScriptProcessor env sdk =
     (case sdk_moduleInstance sdk of
        None \<Rightarrow> (Resolved, sdk)
      | Some moduleInstance \<Rightarrow>
          (let sdk1 = sdk\<lparr>sdk_moduleInstance :=
                           Some (moduleInstance @ [Init (env_sampleRate env) (sdk_bufferSize sdk)]),
                         sdk_outPtrs := True\<rparr>
           in if \<not> env_scriptProcessor env then (Rejected ''IndexSizeError'', sdk1)
              else (Resolved, sdk1\<lparr>sdk_scriptNode := True\<rparr>)))"

text \<open>\<open>init\<close>. Its \<open>catch\<close> block resets \<open>initialized\<close> and rethrows.\<close>

definition VitalSDK_init :: "environment \<Rightarrow> vital_sdk \<Rightarrow> outcome \<times> vital_sdk" where
  "VitalSDK_init env sdk =
     (if sdk_initialized sdk then (Resolved, sdk)
      else
        (let (res, sdk') =
               (if \<not> env_audioContext env then (Rejected ''AudioContext'', sdk)
                else
                  (let sdk1 = sdk\<lparr>sdk_initialized := True\<rparr>
                   in if sdk_useWorklet sdk1 then
                        (if \<not> env_worker env then (Rejected ''Worker'', sdk1)
                         else
                           (let sdk2 = sdk1\<lparr>sdk_worker := True\<rparr>
                            in if \<not> env_addModule env then (Rejected ''Failed to load worklet'', sdk2)
                               else initWorkletAndWorker env sdk2))
                      else
                        (if \<not> env_wasm env then (Rejected ''import'', sdk1)
                         else initScriptProcessor env (sdk1\<lparr>sdk_moduleInstance := Some []\<rparr>))))
         in case res of
              Rejected e \<Rightarrow> (Rejected e, sdk'\<lparr>sdk_initialized := False\<rparr>)
            | _ \<Rightarrow> (res, sdk')))"


text \<open>
  \<open>noteOn(midiNote, velocity)\<close> and \<open>noteOff(midiNote)\<close>, for an integer note and
  a finite velocity (the value of the double passed). The bytes of the control record are
  what \<open>new Uint8Array([...])\<close> keeps of each number; \<open>velocityByte\<close> is
  \<open>Math.floor(velocity * 127)\<close>, the floor of the rounded product.
\<close>

definition VitalSDK_noteOn :: "vital_sdk \<Rightarrow> int \<Rightarrow> rat \<Rightarrow> vital_sdk" where
  "VitalSDK_noteOn sdk midiNote velocity =
     (if \<not> sdk_initialized sdk then sdk
      else case (sdk_useWorklet sdk \<and> sdk_worker sdk, sdk_ringBuffer sdk) of
        (True, Some ringBuffer) \<Rightarrow>
          (let velocityByte = js_floor (js_number (velocity * 127));
               (ret, ringBuffer') =
                 RingBuffer_write ringBuffer
                   [word_of_nat CMD_NOTE_ON, word_of_int midiNote, to_uint8 velocityByte]
           in sdk\<lparr>sdk_ringBuffer := Some ringBuffer'\<rparr>)
      | _ \<Rightarrow>
          (case sdk_moduleInstance sdk of
             Some moduleInstance \<Rightarrow>
               sdk\<lparr>sdk_moduleInstance :=
                     Some (moduleInstance @ [Note_on (Num (rat_of_int midiNote)) (Num velocity)])\<rparr>
           | None \<Rightarrow> sdk))"

definition VitalSDK_noteOff :: "vital_sdk \<Rightarrow> int \<Rightarrow> vital_sdk" where
  "VitalSDK_noteOff sdk midiNote =
     (if \<not> sdk_initialized sdk then sdk
      else case (sdk_useWorklet sdk \<and> sdk_worker sdk, sdk_ringBuffer sdk) of
        (True, Some ringBuffer) \<Rightarrow>
          (let (ret, ringBuffer') =
                 RingBuffer_write ringBuffer [word_of_nat CMD_NOTE_OFF, word_of_int midiNote]
           in sdk\<lparr>sdk_ringBuffer := Some ringBuffer'\<rparr>)
      | _ \<Rightarrow>
          (case sdk_moduleInstance sdk of
             Some moduleInstance \<Rightarrow>
               sdk\<lparr>sdk_moduleInstance :=
                     Some (moduleInstance @ [Note_off (Num (rat_of_int midiNote))])\<rparr>
           | None \<Rightarrow> sdk))"


text \<open>
  \<open>loadPreset(preset)\<close> for a preset given as a string. \<open>json_clean\<close> stands for
  \<open>JSON.parse\<close>, the clean-up of two fields and \<open>JSON.stringify\<close>: \<open>None\<close> when
  \<open>JSON.parse\<close> throws. \<open>load_rc\<close> is the return code of the engine's
  \<open>_load_preset\<close>. The result is the promise's outcome and the message posted to the
  worker, if any.
\<close>

datatype preset_failure = Not_initialized | Invalid_JSON | Load_failed int

definition VitalSDK_loadPreset ::
  "(string \<Rightarrow> string option) \<Rightarrow> (string \<Rightarrow> int) \<Rightarrow> vital_sdk \<Rightarrow> string
     \<Rightarrow> (preset_failure + string option) \<times> vital_sdk" where
  "VitalSDK_loadPreset json_clean load_rc sdk preset =
     (if \<not> sdk_initialized sdk then (Inl Not_initialized, sdk)
      else case json_clean preset of
        None \<Rightarrow> (Inl Invalid_JSON, sdk)
      | Some utf8Bytes \<Rightarrow>
          if sdk_useWorklet sdk then
            (if sdk_worker sdk then (Inr (Some utf8Bytes), sdk) else (Inr None, sdk))
          else
            (case sdk_moduleInstance sdk of
               None \<Rightarrow> (Inr None, sdk)
             | Some moduleInstance \<Rightarrow>
                 (let sdk' = sdk\<lparr>sdk_moduleInstance := Some (moduleInstance @ [Load_preset utf8Bytes])\<rparr>;
                      rc = load_rc utf8Bytes
                  in if rc \<noteq> 0 then (Inl (Load_failed rc), sdk') else (Inr None, sdk'))))"

section \<open>The audio store: initialisation with fallback\<close>




text \<open>
  The SDK that \<open>init\<close> leaves in legacy mode (script processor, engine in the calling
  context). Two hosts: one on which only that mode can start (no worker, no worklet, no
  shared memory), and one that offers everything the worklet mode asks for, with a worker
  that answers the \<open>init\<close> message as given.
\<close>

definition degraded :: "environment \<Rightarrow> rat \<Rightarrow> vital_sdk" where
  "degraded env bufferSize =
     (new_VitalSDK bufferSize False)
       \<lparr>sdk_initialized := True,
        sdk_moduleInstance :=
          Some [Init (env_sampleRate env) (if bufferSize = 0 then 1024 else bufferSize)],
        sdk_outPtrs := True, sdk_scriptNode := True\<rparr>"

definition legacy_host :: environment where
  "legacy_host =
     \<lparr>env_audioContext = True, env_sampleRate = 48000, env_worker = False,
      env_addModule = False, env_sharedArrayBuffer = False, env_workletNode = False,
      env_workerReply = No_reply, env_wasm = True, env_scriptProcessor = True\<rparr>"

definition worklet_host :: "worker_reply \<Rightarrow> environment" where
  "worklet_host reply =
     \<lparr>env_audioContext = True, env_sampleRate = 48000, env_worker = True,
      env_addModule = True, env_sharedArrayBuffer = True, env_workletNode = True,
      env_workerReply = reply, env_wasm = True, env_scriptProcessor = True\<rparr>"


section \<open>Runs of the transport\<close>

text \<open>
  A run of the control queue is a sequence of \<open>write\<close> and \<open>read\<close> calls (one
  producer, one consumer, whole calls interleaved) on a buffer fresh from the
  constructor. The trace records the payloads of the writes that returned \<open>true\<close>
  and the views passed to the drain callback, both in call order.
\<close>

datatype rb_op = Write "byte list" | Drain

record rb_trace =
  tr_rb :: ring_buffer
  tr_written :: "byte list list"
  tr_delivered :: "byte list list"

fun rb_step :: "rb_trace \<Rightarrow> rb_op \<Rightarrow> rb_trace" where
  "rb_step t (Write d) =
     (let (ok, rb') = RingBuffer_write (tr_rb t) d
      in t\<lparr>tr_rb := rb', tr_written := tr_written t @ (if ok then [d] else [])\<rparr>)"
| "rb_step t Drain =
     (let (vs, rb') = RingBuffer_read (tr_rb t)
      in t\<lparr>tr_rb := rb', tr_delivered := tr_delivered t @ vs\<rparr>)"

definition rb_start :: "nat \<Rightarrow> rb_trace" where
  "rb_start sz = \<lparr>tr_rb = new_RingBuffer sz, tr_written = [], tr_delivered = []\<rparr>"

definition rb_run :: "nat \<Rightarrow> rb_op list \<Rightarrow> rb_trace" where
  "rb_run sz ops = foldl rb_step (rb_start sz) ops"

text \<open>The bytes a call offers to the queue (payload and length prefix), and the bound
  of the one-byte prefix on a payload.\<close>

fun rb_cost :: "rb_op \<Rightarrow> nat" where
  "rb_cost (Write d) = length d + 1"
| "rb_cost Drain = 0"

definition rb_traffic :: "rb_op list \<Rightarrow> nat" where
  "rb_traffic ops = sum_list (map rb_cost ops)"

fun small_payload :: "rb_op \<Rightarrow> bool" where
  "small_payload (Write d) \<longleftrightarrow> length d \<le> 255"
| "small_payload Drain \<longleftrightarrow> True"

text \<open>Two inputs used below: a record of the largest size the prefix can describe,
  written and drained \<open>n\<close> times; and a record one byte too long.\<close>

definition full_record :: "byte list" where
  "full_record = replicate 255 0"

definition cycles :: "nat \<Rightarrow> rb_op list" where
  "cycles n = concat (replicate n [Write full_record, Drain])"

definition oversized :: "byte list" where
  "oversized = 1 # 0 # 255 # replicate 253 0"

text \<open>A run of the audio stream: \<open>write\<close> calls and \<open>read\<close> calls (each with the
  caller's output channels and frame count) on a buffer fresh from the constructor.\<close>

datatype arb_op = AWrite "f32 list" | ARead "f32 list \<times> f32 list" nat

fun arb_step :: "audio_ring_buffer \<Rightarrow> arb_op \<Rightarrow> audio_ring_buffer" where
  "arb_step arb (AWrite inputInterleaved) = snd (AudioRingBuffer_write arb inputInterleaved)"
| "arb_step arb (ARead outputChannels framesToRead) =
     fst (snd (AudioRingBuffer_read arb outputChannels framesToRead))"

definition arb_run :: "nat \<Rightarrow> nat \<Rightarrow> arb_op list \<Rightarrow> audio_ring_buffer" where
  "arb_run channelCount frameCapacity ops =
     foldl arb_step (new_AudioRingBuffer channelCount frameCapacity) ops"

text \<open>The whole frames a call offers to a buffer of \<open>cc\<close> channels.\<close>

fun arb_cost :: "nat \<Rightarrow> arb_op \<Rightarrow> nat" where
  "arb_cost cc (AWrite inputInterleaved) = length inputInterleaved div cc"
| "arb_cost cc (ARead outputChannels framesToRead) = 0"

definition arb_traffic :: "nat \<Rightarrow> arb_op list \<Rightarrow> nat" where
  "arb_traffic cc ops = sum_list (map (arb_cost cc) ops)"

text \<open>
  The dual-context pipeline: the SDK in the control context and the worker each hold a
  view of the one shared control region, so after a step of one side the other side's
  view (when it has one) shows the region as that step left it.
\<close>

datatype control_event = NoteOn int rat | NoteOff int | ProcessCommands

definition share_control :: "ring_buffer option \<Rightarrow> ring_buffer option \<Rightarrow> ring_buffer option" where
  "share_control src dst = (case (src, dst) of (Some rb, Some _) \<Rightarrow> Some rb | _ \<Rightarrow> dst)"

fun dual_step :: "vital_sdk \<times> worker \<Rightarrow> control_event \<Rightarrow> vital_sdk \<times> worker" where
  "dual_step (sdk, wk) (NoteOn midiNote velocity) =
     (let sdk' = VitalSDK_noteOn sdk midiNote velocity
      in (sdk', wk\<lparr>wk_commandRingBuffer :=
                     share_control (sdk_ringBuffer sdk') (wk_commandRingBuffer wk)\<rparr>))"
| "dual_step (sdk, wk) (NoteOff midiNote) =
     (let sdk' = VitalSDK_noteOff sdk midiNote
      in (sdk', wk\<lparr>wk_commandRingBuffer :=
                     share_control (sdk_ringBuffer sdk') (wk_commandRingBuffer wk)\<rparr>))"
| "dual_step (sdk, wk) ProcessCommands =
     (let wk' = processCommands wk
      in (sdk\<lparr>sdk_ringBuffer :=
                 share_control (wk_commandRingBuffer wk') (sdk_ringBuffer sdk)\<rparr>, wk'))"

text \<open>The pipeline once \<open>init\<close> has resolved in worklet mode and the worker has
  handled its \<open>init\<close> message with an engine that has received \<open>calls\<close>.\<close>

definition dual_ready :: "rat \<Rightarrow> engine \<Rightarrow> vital_sdk \<times> worker" where
  "dual_ready bufferSize calls =
     ((new_VitalSDK bufferSize True)
        \<lparr>sdk_initialized := True, sdk_worker := True, sdk_workletNode := True,
         sdk_audioRingBuffer := Some (new_AudioRingBuffer 2 4096),
         sdk_ringBuffer := Some (new_RingBuffer 4096)\<rparr>,
      \<lparr>wk_isReady = True, wk_moduleInstance = calls,
       wk_audioRingBuffer = Some (AudioRingBuffer_of_sab (new_AudioRingBuffer 2 4096) 2),
       wk_commandRingBuffer = Some (new_RingBuffer 4096),
       wk_targetBufferSize = (if bufferSize = 0 then 1024 else bufferSize),
       wk_bufferSize = 128\<rparr>)"

text \<open>
  The audio side of that pipeline. The worker and the worklet processor each hold an
  \<open>AudioRingBuffer\<close> of two channels over the one shared audio region, so the
  processor reads the region as the worker's write left it, and the worker then sees the
  processor's read index. One cycle is an iteration of \<open>renderLoop\<close> followed by one
  output quantum (128 frames, zeroed by the host) of \<open>process\<close>; \<open>stream_run dsp n\<close>
  is the worker after \<open>n\<close> cycles of a pipeline with buffer size 1024.
\<close>

definition quantum :: "f32 list list" where
  "quantum = [replicate 128 0, replicate 128 0]"

definition stream_cycle :: "(engine \<Rightarrow> f32 list \<times> f32 list) \<Rightarrow> worker \<Rightarrow> worker" where
  "stream_cycle dsp wk =
     (let wk1 = snd (renderLoop dsp wk)
      in wk1\<lparr>wk_audioRingBuffer := fst (snd (process (wk_audioRingBuffer wk1) quantum))\<rparr>)"

definition stream_run :: "(engine \<Rightarrow> f32 list \<times> f32 list) \<Rightarrow> nat \<Rightarrow> worker" where
  "stream_run dsp n = (stream_cycle dsp ^^ n) (snd (dual_ready 1024 []))"

section \<open>The queue as a sequence of records\<close>

text \<open>
  \<open>at_ring buf j\<close> is the byte at position \<open>j\<close> of the ring, \<open>content buf r m\<close> the
  \<open>m\<close> bytes from position \<open>r\<close>, and \<open>encode p\<close> the wire format of a record:
  its length in one byte, then the payload. \<open>queue_inv rb qs\<close> says that the bytes
  between the two indices are the records \<open>qs\<close>, oldest first, and that the indices
  are in order, within the capacity and within the range of an \<open>Int32\<close>.
\<close>

definition at_ring :: "byte list \<Rightarrow> int \<Rightarrow> byte" where
  "at_ring buf j = buf ! nat (j mod int (length buf))"

definition content :: "byte list \<Rightarrow> int \<Rightarrow> nat \<Rightarrow> byte list" where
  "content buf r m = map (\<lambda>k. at_ring buf (r + int k)) [0..<m]"

definition encode :: "byte list \<Rightarrow> byte list" where
  "encode p = word_of_nat (length p) # p"

definition queue_inv :: "ring_buffer \<Rightarrow> byte list list \<Rightarrow> bool" where
  "queue_inv rb qs \<longleftrightarrow>
     rb_buffer rb \<noteq> [] \<and> 0 \<le> rb_readIndex rb \<and> rb_readIndex rb \<le> rb_writeIndex rb \<and>
     rb_writeIndex rb < 2147483648 \<and>
     rb_writeIndex rb - rb_readIndex rb \<le> int (rb_size rb) \<and>
     content (rb_buffer rb) (rb_readIndex rb) (nat (rb_writeIndex rb - rb_readIndex rb))
       = concat (map encode qs) \<and>
     (\<forall>q \<in> set qs. length q \<le> 255)"

text \<open>The same for the audio stream, on the indices alone.\<close>

definition arb_inv :: "audio_ring_buffer \<Rightarrow> bool" where
  "arb_inv arb \<longleftrightarrow>
     0 < arb_channelCount arb \<and> 0 \<le> arb_readIndex arb \<and>
     arb_readIndex arb \<le> arb_writeIndex arb \<and> arb_writeIndex arb < 2147483648 \<and>
     arb_writeIndex arb - arb_readIndex arb \<le> int (arb_capacity arb)"

text \<open>The pipeline of \<open>stream_run\<close> with the indices of its audio region at \<open>w\<close>
  (write) and \<open>r\<close> (read) and its control queue empty.\<close>

definition stream_at :: "worker \<Rightarrow> int \<Rightarrow> int \<Rightarrow> bool" where
  "stream_at wk w r \<longleftrightarrow>
     wk_isReady wk \<and> wk_bufferSize wk = 128 \<and> wk_targetBufferSize wk = 1024 \<and>
     wk_commandRingBuffer wk = Some (new_RingBuffer 4096) \<and>
     (case wk_audioRingBuffer wk of
        None \<Rightarrow> False
      | Some arb \<Rightarrow>
          arb_channelCount arb = 2 \<and> arb_capacity arb = 4096 \<and> length (arb_buffer arb) = 8192 \<and>
          arb_writeIndex arb = w \<and> arb_readIndex arb = r)"

section \<open>Lemmas on the control queue\<close>


lemma to_int32_id: "- 2147483648 \<le> x \<Longrightarrow> x < 2147483648 \<Longrightarrow> to_int32 x = x"
  by (simp add: to_int32_def)

lemma js_rem_nonneg: "0 \<le> a \<Longrightarrow> js_rem a n = a mod n"
  by (simp add: js_rem_def)

lemma ring_pos: "buf \<noteq> [] \<Longrightarrow> 0 \<le> j mod int (length buf) \<and> j mod int (length buf) < int (length buf)"
  by simp

lemma ta_get_ring:
  "0 \<le> j \<Longrightarrow> buf \<noteq> [] \<Longrightarrow> ta_get buf (js_rem j (int (length buf))) = Some (at_ring buf j)"
  by (simp add: ta_get_def js_rem_nonneg at_ring_def)

lemma ta_set_ring:
  "0 \<le> j \<Longrightarrow> buf \<noteq> [] \<Longrightarrow>
   ta_set buf (js_rem j (int (length buf))) v = buf[nat (j mod int (length buf)) := v]"
  by (simp add: ta_set_def js_rem_nonneg)

lemma length_ta_set [simp]: "length (ta_set xs i v) = length xs"
  by (simp add: ta_set_def)

lemma length_write_data [simp]: "length (write_data buf pos ds) = length buf"
  by (induction ds arbitrary: buf pos) simp_all

lemma mod_distinct:
  fixes a d n :: int
  assumes "0 < d" "d < n"
  shows "(a + d) mod n \<noteq> a mod n"
proof
  assume "(a + d) mod n = a mod n"
  then have "n dvd (a + d) - a"
    by (simp add: mod_eq_dvd_iff)
  then have "n dvd d" by simp
  with assms show False
    using zdvd_imp_le by fastforce
qed

lemma nat_ring_lt: "buf \<noteq> [] \<Longrightarrow> nat (j mod int (length buf)) < length buf"
  by (simp add: nat_less_iff)

lemma at_ring_update:
  "buf \<noteq> [] \<Longrightarrow>
   at_ring (buf[nat (p mod int (length buf)) := v]) j =
     (if j mod int (length buf) = p mod int (length buf) then v else at_ring buf j)"
  by (auto simp: at_ring_def nth_list_update nat_ring_lt nat_eq_iff)

lemma write_data_other:
  "0 \<le> pos \<Longrightarrow> buf \<noteq> [] \<Longrightarrow>
   \<forall>k < length ds. (pos + int k) mod int (length buf) \<noteq> j mod int (length buf) \<Longrightarrow>
   at_ring (write_data buf pos ds) j = at_ring buf j"
proof (induction ds arbitrary: buf pos)
  case Nil
  then show ?case by simp
next
  case (Cons d ds)
  let ?buf' = "buf[nat (pos mod int (length buf)) := d]"
  have step: "write_data buf pos (d # ds) = write_data ?buf' (pos + 1) ds"
    using Cons.prems by (simp add: ta_set_ring)
  have "\<forall>k < length ds. (pos + 1 + int k) mod int (length ?buf') \<noteq> j mod int (length ?buf')"
  proof (intro allI impI)
    fix k assume "k < length ds"
    then have "Suc k < length (d # ds)" by simp
    with Cons.prems(3) have "(pos + int (Suc k)) mod int (length buf) \<noteq> j mod int (length buf)"
      by blast
    then show "(pos + 1 + int k) mod int (length ?buf') \<noteq> j mod int (length ?buf')"
      by (simp add: ac_simps)
  qed
  then have "at_ring (write_data ?buf' (pos + 1) ds) j = at_ring ?buf' j"
    using Cons.prems by (intro Cons.IH) simp_all
  moreover have "pos mod int (length buf) \<noteq> j mod int (length buf)"
    using Cons.prems(3) [rule_format, of 0] by simp
  ultimately show ?case
    unfolding step using Cons.prems by (simp add: at_ring_update)
qed

lemma write_data_at:
  "0 \<le> pos \<Longrightarrow> buf \<noteq> [] \<Longrightarrow> length ds \<le> length buf \<Longrightarrow> k < length ds \<Longrightarrow>
   at_ring (write_data buf pos ds) (pos + int k) = ds ! k"
proof (induction ds arbitrary: buf pos k)
  case Nil
  then show ?case by simp
next
  case (Cons d ds)
  let ?buf' = "buf[nat (pos mod int (length buf)) := d]"
  have step: "write_data buf pos (d # ds) = write_data ?buf' (pos + 1) ds"
    using Cons.prems by (simp add: ta_set_ring)
  show ?case
  proof (cases k)
    case 0
    have "\<forall>i < length ds. (pos + 1 + int i) mod int (length ?buf') \<noteq> pos mod int (length ?buf')"
    proof (intro allI impI)
      fix i assume "i < length ds"
      with Cons.prems have "0 < 1 + int i" "1 + int i < int (length buf)" by simp_all
      then have "(pos + (1 + int i)) mod int (length buf) \<noteq> pos mod int (length buf)"
        by (rule mod_distinct)
      then show "(pos + 1 + int i) mod int (length ?buf') \<noteq> pos mod int (length ?buf')"
        by (simp add: add.assoc)
    qed
    then have "at_ring (write_data ?buf' (pos + 1) ds) pos = at_ring ?buf' pos"
      using Cons.prems by (intro write_data_other) simp_all
    then show ?thesis
      unfolding step using Cons.prems 0 by (simp add: at_ring_update)
  next
    case (Suc k')
    with Cons.prems have "at_ring (write_data ?buf' (pos + 1) ds) (pos + 1 + int k') = ds ! k'"
      by (intro Cons.IH) simp_all
    then show ?thesis
      unfolding step using Suc by (simp add: ac_simps)
  qed
qed



lemma length_content [simp]: "length (content buf r m) = m"
  by (simp add: content_def)

lemma content_append:
  "content buf r (a + b) = content buf r a @ content buf (r + int a) b"
proof (rule nth_equalityI)
  show "length (content buf r (a + b)) = length (content buf r a @ content buf (r + int a) b)"
    by simp
next
  fix i assume "i < length (content buf r (a + b))"
  then have i: "i < a + b" by simp
  show "content buf r (a + b) ! i = (content buf r a @ content buf (r + int a) b) ! i"
  proof (cases "i < a")
    case True
    with i show ?thesis by (simp add: content_def nth_append)
  next
    case False
    then have "r + int a + int (i - a) = r + int i" by simp
    with False i show ?thesis by (simp add: content_def nth_append)
  qed
qed

lemma content_write_data_old:
  assumes "0 \<le> r" "r \<le> w" "buf \<noteq> []"
    and "(w - r) + int (length ds) \<le> int (length buf)"
  shows "content (write_data buf w ds) r (nat (w - r)) = content buf r (nat (w - r))"
  unfolding content_def
proof (rule map_cong [OF refl])
  fix k assume "k \<in> set [0..<nat (w - r)]"
  then have k: "int k < w - r" by auto
  have "\<forall>i < length ds. (w + int i) mod int (length buf) \<noteq> (r + int k) mod int (length buf)"
  proof (intro allI impI)
    fix i assume i: "i < length ds"
    let ?d = "w - r - int k + int i"
    have "0 < ?d" "?d < int (length buf)"
      using k i assms by linarith+
    then have "((r + int k) + ?d) mod int (length buf) \<noteq> (r + int k) mod int (length buf)"
      by (rule mod_distinct)
    then show "(w + int i) mod int (length buf) \<noteq> (r + int k) mod int (length buf)"
      by (simp add: algebra_simps)
  qed
  then show "at_ring (write_data buf w ds) (r + int k) = at_ring buf (r + int k)"
    using assms by (intro write_data_other) simp_all
qed

lemma content_write_data_new:
  assumes "0 \<le> w" "buf \<noteq> []" "length ds \<le> length buf"
  shows "content (write_data buf w ds) w (length ds) = ds"
proof (rule nth_equalityI)
  show "length (content (write_data buf w ds) w (length ds)) = length ds"
    by simp
next
  fix i assume "i < length (content (write_data buf w ds) w (length ds))"
  then have "i < length ds" by simp
  then show "content (write_data buf w ds) w (length ds) ! i = ds ! i"
    using assms by (simp add: content_def write_data_at)
qed

lemma write_frame:
  "write_data (ta_set buf (js_rem w (int (length buf))) lb) (w + 1) d = write_data buf w (lb # d)"
  by simp

lemma RingBuffer_write_rejected:
  "int (rb_size rb) - (rb_writeIndex rb - rb_readIndex rb) < int (length d) + 1 \<Longrightarrow>
   RingBuffer_write rb d = (False, rb)"
  by (simp add: RingBuffer_write_def Let_def)

lemma RingBuffer_write_accepted:
  "\<not> int (rb_size rb) - (rb_writeIndex rb - rb_readIndex rb) < int (length d) + 1 \<Longrightarrow>
   RingBuffer_write rb d =
     (True, rb\<lparr>rb_buffer := write_data (rb_buffer rb) (rb_writeIndex rb) (word_of_nat (length d) # d),
              rb_writeIndex := to_int32 (rb_writeIndex rb + (int (length d) + 1))\<rparr>)"
  by (simp add: RingBuffer_write_def Let_def rb_size_def)




lemma queue_inv_write:
  assumes inv: "queue_inv rb qs"
    and len: "length d \<le> 255"
    and room: "\<not> int (rb_size rb) - (rb_writeIndex rb - rb_readIndex rb) < int (length d) + 1"
    and rng: "rb_writeIndex rb + int (length d) + 1 < 2147483648"
  shows "queue_inv (snd (RingBuffer_write rb d)) (qs @ [d])"
proof -
  let ?buf = "rb_buffer rb" and ?w = "rb_writeIndex rb" and ?r = "rb_readIndex rb"
  let ?fr = "encode d"
  let ?buf' = "write_data ?buf ?w ?fr"
  let ?w' = "?w + (int (length d) + 1)"
  from inv have ne: "?buf \<noteq> []" and r0: "0 \<le> ?r" and rw: "?r \<le> ?w"
    and c: "content ?buf ?r (nat (?w - ?r)) = concat (map encode qs)"
    and qs: "\<forall>q \<in> set qs. length q \<le> 255"
    by (simp_all add: queue_inv_def)
  have fit: "(?w - ?r) + int (length ?fr) \<le> int (length ?buf)"
    using room by (simp add: rb_size_def encode_def)
  have w': "to_int32 ?w' = ?w'"
    using r0 rw rng by (intro to_int32_id) linarith+
  have rb': "snd (RingBuffer_write rb d) = rb\<lparr>rb_buffer := ?buf', rb_writeIndex := ?w'\<rparr>"
    using room w' by (simp add: RingBuffer_write_accepted encode_def del: write_data.simps)
  have split: "nat (?w' - ?r) = nat (?w - ?r) + length ?fr"
    using rw by (simp add: encode_def nat_add_distrib)
  have old: "content ?buf' ?r (nat (?w - ?r)) = content ?buf ?r (nat (?w - ?r))"
    using r0 rw ne fit by (rule content_write_data_old)
  have "length ?fr \<le> length ?buf"
    using fit rw by linarith
  then have new: "content ?buf' ?w (length ?fr) = ?fr"
    using r0 rw ne by (intro content_write_data_new) simp_all
  have "content ?buf' ?r (nat (?w' - ?r)) = concat (map encode (qs @ [d]))"
    using rw by (simp add: split content_append old new c del: write_data.simps)
  moreover have "?buf' \<noteq> []"
    using ne length_write_data [of ?buf ?w ?fr] by (metis length_0_conv)
  moreover have "length ?buf' = length ?buf"
    by simp
  ultimately show ?thesis
    unfolding rb' using r0 rw rng fit qs len
    by (simp add: queue_inv_def rb_size_def encode_def del: write_data.simps)
qed

lemma length_read_data [simp]: "length (read_data buf r len temp) = length temp"
proof -
  have "length (fold (\<lambda>i t. ta_set t (int i) (g i)) ks temp) = length temp" for g ks
    by (induction ks arbitrary: temp) simp_all
  then show ?thesis
    by (simp add: read_data_def)
qed

lemma read_data_Suc:
  "read_data buf r (Suc n) temp =
     ta_set (read_data buf r n temp) (int n)
       (case ta_get buf (js_rem (r + 1 + int n) (int (length buf))) of None \<Rightarrow> 0 | Some b \<Rightarrow> b)"
  by (simp add: read_data_def)

lemma take_read_data:
  "len \<le> length temp \<Longrightarrow> 0 \<le> r \<Longrightarrow> buf \<noteq> [] \<Longrightarrow>
   take len (read_data buf r len temp) = content buf (r + 1) len"
proof (induction len)
  case 0
  then show ?case by (simp add: content_def)
next
  case (Suc n)
  let ?t = "read_data buf r n temp"
  have n: "n < length ?t" using Suc.prems by simp
  have get: "ta_get buf (js_rem (r + 1 + int n) (int (length buf))) = Some (at_ring buf (r + 1 + int n))"
    using Suc.prems by (intro ta_get_ring) simp_all
  have "take (Suc n) (?t[n := at_ring buf (r + 1 + int n)]) = take n ?t @ [at_ring buf (r + 1 + int n)]"
    using n by (simp add: take_Suc_conv_app_nth)
  moreover have "take n ?t = content buf (r + 1) n"
    using Suc by simp
  moreover have "content buf (r + 1) (Suc n) = content buf (r + 1) n @ [at_ring buf (r + 1 + int n)]"
    by (simp add: content_def)
  ultimately show ?case
    using n by (simp add: read_data_Suc get ta_set_def)
qed

lemma unat_length_byte: "n \<le> 255 \<Longrightarrow> unat (word_of_nat n :: byte) = n"
  by (simp add: unat_of_nat)

lemma read_loop_decode:
  assumes "buf \<noteq> []" "0 \<le> r" "r \<le> w"
    and "content buf r (nat (w - r)) = concat (map encode qs)"
    and "\<forall>q \<in> set qs. length q \<le> 255"
  shows "\<exists>t. read_loop buf w r temp = (w, t, qs)"
  using assms
proof (induction qs arbitrary: r temp)
  case Nil
  then have "nat (w - r) = 0"
    by (metis length_content concat.simps(1) list.map(1) list.size(3))
  with Nil.prems have "r = w" by simp
  then show ?case by (simp add: read_loop.simps)
next
  case (Cons q qs)
  let ?n = "length q"
  let ?rest = "concat (map encode qs)"
  let ?r' = "r + (int ?n + 1)"
  have q: "?n \<le> 255" using Cons.prems by simp
  have "length (content buf r (nat (w - r))) = length (encode q @ ?rest)"
    using Cons.prems(4) by simp
  then have total: "nat (w - r) = Suc ?n + length ?rest"
    by (simp add: encode_def)
  then have lt: "r < w" and r'w: "?r' \<le> w" by linarith+
  have "content buf r (Suc ?n + length ?rest) = encode q @ ?rest"
    using Cons.prems(4) total by simp
  then have "content buf r (Suc ?n) @ content buf (r + int (Suc ?n)) (length ?rest) = encode q @ ?rest"
    by (simp only: content_append)
  moreover have "length (content buf r (Suc ?n)) = length (encode q)"
    by (simp add: encode_def)
  ultimately have "content buf r (Suc ?n) = encode q \<and>
      content buf (r + int (Suc ?n)) (length ?rest) = ?rest"
    by (metis append_eq_append_conv)
  then have fr: "content buf r (Suc ?n) = encode q"
    and rest: "content buf (r + int (Suc ?n)) (length ?rest) = ?rest"
    by blast+
  have "content buf r (1 + ?n) = content buf r 1 @ content buf (r + int 1) ?n"
    by (rule content_append)
  with fr have hd: "at_ring buf r = word_of_nat ?n" and pay: "content buf (r + 1) ?n = q"
    by (simp_all add: encode_def content_def)
  have get: "ta_get buf (js_rem r (int (length buf))) = Some (word_of_nat ?n)"
    using Cons.prems hd by (simp add: ta_get_ring)
  have len: "unat (word_of_nat ?n :: byte) = ?n"
    using q by (rule unat_length_byte)
  define temp1 where "temp1 = (if length temp < ?n then replicate (?n + 64) 0 else temp)"
  define temp2 where "temp2 = read_data buf r ?n temp1"
  have "?n \<le> length temp1" by (simp add: temp1_def)
  then have view: "take ?n temp2 = q"
    using Cons.prems pay by (simp add: temp2_def take_read_data)
  have "nat (w - ?r') = length ?rest"
    using total by linarith
  moreover have "r + int (Suc ?n) = ?r'" by simp
  ultimately have "content buf ?r' (nat (w - ?r')) = ?rest"
    using rest by (simp add: ac_simps)
  then obtain t where t: "read_loop buf w ?r' temp2 = (w, t, qs)"
    using Cons.IH [of ?r' temp2] Cons.prems r'w by auto
  have "read_loop buf w r temp = (w, t, q # qs)"
    using lt get len view t
    by (subst read_loop.simps) (simp add: Let_def temp1_def temp2_def)
  then show ?case by blast
qed

lemma queue_inv_read:
  assumes inv: "queue_inv rb qs"
  shows "fst (RingBuffer_read rb) = qs \<and> queue_inv (snd (RingBuffer_read rb)) [] \<and>
         rb_readIndex (snd (RingBuffer_read rb)) = rb_writeIndex rb \<and>
         rb_writeIndex (snd (RingBuffer_read rb)) = rb_writeIndex rb \<and>
         rb_buffer (snd (RingBuffer_read rb)) = rb_buffer rb"
proof (cases "rb_readIndex rb = rb_writeIndex rb")
  case True
  with inv have "concat (map encode qs) = []"
    by (simp add: queue_inv_def content_def)
  then have "qs = []"
    by (cases qs) (simp_all add: encode_def)
  with True inv show ?thesis
    by (simp add: RingBuffer_read_def)
next
  case False
  let ?temp0 = "case rb_tempBuffer rb of None \<Rightarrow> replicate 256 0 | Some t \<Rightarrow> t"
  from inv obtain t where t: "read_loop (rb_buffer rb) (rb_writeIndex rb) (rb_readIndex rb) ?temp0
      = (rb_writeIndex rb, t, qs)"
    using read_loop_decode [of "rb_buffer rb" "rb_readIndex rb" "rb_writeIndex rb" qs ?temp0]
    by (auto simp: queue_inv_def)
  have "to_int32 (rb_writeIndex rb) = rb_writeIndex rb"
    using inv by (intro to_int32_id) (simp_all add: queue_inv_def)
  with False t inv show ?thesis
    by (simp add: RingBuffer_read_def Let_def queue_inv_def content_def rb_size_def)
qed



lemma queue_inv_new: "queue_inv (new_RingBuffer sz) []"
  by (simp add: queue_inv_def new_RingBuffer_def content_def rb_size_def)

lemma rb_step_inv:
  assumes inv: "queue_inv (tr_rb t) qs"
    and log: "tr_written t = tr_delivered t @ qs"
    and bound: "rb_writeIndex (tr_rb t) \<le> int n"
    and small: "small_payload op"
    and rng: "n + rb_cost op < 2147483648"
  shows "\<exists>qs'. queue_inv (tr_rb (rb_step t op)) qs' \<and>
           tr_written (rb_step t op) = tr_delivered (rb_step t op) @ qs' \<and>
           rb_writeIndex (tr_rb (rb_step t op)) \<le> int (n + rb_cost op)"
proof (cases op)
  case (Write d)
  let ?rb = "tr_rb t"
  show ?thesis
  proof (cases "int (rb_size ?rb) - (rb_writeIndex ?rb - rb_readIndex ?rb) < int (length d) + 1")
    case True
    then have "RingBuffer_write ?rb d = (False, ?rb)"
      by (rule RingBuffer_write_rejected)
    with inv log bound Write show ?thesis
      by auto
  next
    case False
    have len: "length d \<le> 255" using small Write by simp
    have r: "rb_writeIndex ?rb + int (length d) + 1 < 2147483648"
      using bound rng Write by simp
    have inv': "queue_inv (snd (RingBuffer_write ?rb d)) (qs @ [d])"
      using inv len False r by (rule queue_inv_write)
    have acc: "RingBuffer_write ?rb d =
        (True, ?rb\<lparr>rb_buffer := write_data (rb_buffer ?rb) (rb_writeIndex ?rb) (word_of_nat (length d) # d),
                  rb_writeIndex := to_int32 (rb_writeIndex ?rb + (int (length d) + 1))\<rparr>)"
      using False by (rule RingBuffer_write_accepted)
    have "0 \<le> rb_writeIndex ?rb"
      using inv by (simp add: queue_inv_def)
    then have "to_int32 (rb_writeIndex ?rb + (int (length d) + 1)) = rb_writeIndex ?rb + (int (length d) + 1)"
      using r by (intro to_int32_id) linarith+
    with acc inv' log bound Write show ?thesis
      by (auto simp del: write_data.simps)
  qed
next
  case Drain
  from queue_inv_read [OF inv] inv log bound Drain show ?thesis
    by (auto simp: split_beta)
qed

lemma foldl_rb_step_inv:
  assumes "queue_inv (tr_rb t) qs"
    and "tr_written t = tr_delivered t @ qs"
    and "rb_writeIndex (tr_rb t) \<le> int n"
    and "\<forall>op \<in> set ops. small_payload op"
    and "n + rb_traffic ops < 2147483648"
  shows "\<exists>qs'. queue_inv (tr_rb (foldl rb_step t ops)) qs' \<and>
           tr_written (foldl rb_step t ops) = tr_delivered (foldl rb_step t ops) @ qs' \<and>
           rb_writeIndex (tr_rb (foldl rb_step t ops)) \<le> int (n + rb_traffic ops)"
  using assms
proof (induction ops arbitrary: t qs n)
  case Nil
  then show ?case by (auto simp: rb_traffic_def)
next
  case (Cons op ops)
  have "n + rb_cost op < 2147483648"
    using Cons.prems(5) by (simp add: rb_traffic_def)
  with Cons.prems obtain qs' where
    1: "queue_inv (tr_rb (rb_step t op)) qs'"
    and 2: "tr_written (rb_step t op) = tr_delivered (rb_step t op) @ qs'"
    and 3: "rb_writeIndex (tr_rb (rb_step t op)) \<le> int (n + rb_cost op)"
    using rb_step_inv [of t qs n op] by auto
  have 4: "n + rb_cost op + rb_traffic ops < 2147483648"
    using Cons.prems(5) by (simp add: rb_traffic_def)
  have 5: "\<forall>op \<in> set ops. small_payload op"
    using Cons.prems(4) by simp
  from Cons.IH [OF 1 2 3 5 4] show ?case
    by (simp add: rb_traffic_def add.assoc)
qed

lemma rb_run_inv:
  assumes "\<forall>op \<in> set ops. small_payload op" and "rb_traffic ops < 2147483648"
  shows "\<exists>qs. queue_inv (tr_rb (rb_run sz ops)) qs \<and>
           tr_written (rb_run sz ops) = tr_delivered (rb_run sz ops) @ qs"
proof -
  have "queue_inv (tr_rb (rb_start sz)) []" "tr_written (rb_start sz) = tr_delivered (rb_start sz) @ []"
    "rb_writeIndex (tr_rb (rb_start sz)) \<le> int 0"
    by (simp_all add: rb_start_def queue_inv_new) (simp add: new_RingBuffer_def)
  from foldl_rb_step_inv [OF this assms(1)] assms(2) show ?thesis
    by (auto simp: rb_run_def)
qed

lemma rb_run_roundtrip:
  assumes "\<forall>op \<in> set ops. small_payload op" and "rb_traffic ops < 2147483648"
  shows "tr_delivered (rb_run sz (ops @ [Drain])) = tr_written (rb_run sz (ops @ [Drain])) \<and>
         rb_readIndex (tr_rb (rb_run sz (ops @ [Drain]))) = rb_writeIndex (tr_rb (rb_run sz (ops @ [Drain])))"
proof -
  obtain qs where inv: "queue_inv (tr_rb (rb_run sz ops)) qs"
    and log: "tr_written (rb_run sz ops) = tr_delivered (rb_run sz ops) @ qs"
    using rb_run_inv [OF assms] by blast
  have "rb_run sz (ops @ [Drain]) = rb_step (rb_run sz ops) Drain"
    by (simp add: rb_run_def)
  with queue_inv_read [OF inv] log show ?thesis
    by (simp add: split_beta)
qed



lemma length_full_record [simp]: "length full_record = 255"
  by (simp add: full_record_def)

lemma rb_step_Write:
  "tr_rb (rb_step t (Write d)) = snd (RingBuffer_write (tr_rb t) d)"
  "tr_written (rb_step t (Write d)) = tr_written t @ (if fst (RingBuffer_write (tr_rb t) d) then [d] else [])"
  "tr_delivered (rb_step t (Write d)) = tr_delivered t"
  by (simp_all add: split_beta)

lemma rb_step_Drain:
  "tr_rb (rb_step t Drain) = snd (RingBuffer_read (tr_rb t))"
  "tr_written (rb_step t Drain) = tr_written t"
  "tr_delivered (rb_step t Drain) = tr_delivered t @ fst (RingBuffer_read (tr_rb t))"
  by (simp_all add: split_beta)

lemma cycle_step:
  assumes inv: "queue_inv (tr_rb t) []"
    and sz: "256 \<le> rb_size (tr_rb t)"
    and rng: "rb_writeIndex (tr_rb t) + 256 < 2147483648"
  shows "queue_inv (tr_rb (rb_step (rb_step t (Write full_record)) Drain)) [] \<and>
         rb_size (tr_rb (rb_step (rb_step t (Write full_record)) Drain)) = rb_size (tr_rb t) \<and>
         rb_writeIndex (tr_rb (rb_step (rb_step t (Write full_record)) Drain)) = rb_writeIndex (tr_rb t) + 256 \<and>
         tr_written (rb_step (rb_step t (Write full_record)) Drain) = tr_written t @ [full_record] \<and>
         tr_delivered (rb_step (rb_step t (Write full_record)) Drain) = tr_delivered t @ [full_record]"
proof -
  let ?rb = "tr_rb t"
  let ?t1 = "rb_step t (Write full_record)"
  from inv have rw: "rb_readIndex ?rb = rb_writeIndex ?rb" and w0: "0 \<le> rb_writeIndex ?rb"
    by (auto simp: queue_inv_def content_def)
  have room: "\<not> int (rb_size ?rb) - (rb_writeIndex ?rb - rb_readIndex ?rb) < int (length full_record) + 1"
    using sz rw by simp
  have acc: "RingBuffer_write ?rb full_record =
      (True, ?rb\<lparr>rb_buffer := write_data (rb_buffer ?rb) (rb_writeIndex ?rb)
                                  (word_of_nat (length full_record) # full_record),
                rb_writeIndex := to_int32 (rb_writeIndex ?rb + (int (length full_record) + 1))\<rparr>)"
    using room by (rule RingBuffer_write_accepted)
  have w': "to_int32 (rb_writeIndex ?rb + (int (length full_record) + 1)) = rb_writeIndex ?rb + 256"
    using w0 rng by (simp add: to_int32_id)
  have inv1: "queue_inv (snd (RingBuffer_write ?rb full_record)) ([] @ [full_record])"
    using inv _ room by (rule queue_inv_write) (use rng in simp_all)
  have t1: "tr_written ?t1 = tr_written t @ [full_record]" "tr_delivered ?t1 = tr_delivered t"
    using acc by (simp_all add: rb_step_Write del: rb_step.simps write_data.simps)
  have w1: "rb_writeIndex (tr_rb ?t1) = rb_writeIndex ?rb + 256"
    and s1: "length (rb_buffer (tr_rb ?t1)) = rb_size ?rb"
    using acc w' by (simp_all add: rb_step_Write rb_size_def del: rb_step.simps write_data.simps)
  from inv1 have inv1': "queue_inv (tr_rb ?t1) [full_record]"
    by (simp add: rb_step_Write del: rb_step.simps)
  from queue_inv_read [OF inv1'] t1 w1 s1 show ?thesis
    by (simp add: rb_step_Drain rb_size_def del: rb_step.simps)
qed

lemma foldl_cycles:
  assumes "queue_inv (tr_rb t) []"
    and "256 \<le> rb_size (tr_rb t)"
    and "rb_writeIndex (tr_rb t) + 256 * int n < 2147483648"
  shows "queue_inv (tr_rb (foldl rb_step t (cycles n))) [] \<and>
         rb_size (tr_rb (foldl rb_step t (cycles n))) = rb_size (tr_rb t) \<and>
         rb_writeIndex (tr_rb (foldl rb_step t (cycles n))) = rb_writeIndex (tr_rb t) + 256 * int n \<and>
         tr_written (foldl rb_step t (cycles n)) = tr_written t @ replicate n full_record \<and>
         tr_delivered (foldl rb_step t (cycles n)) = tr_delivered t @ replicate n full_record"
  using assms
proof (induction n arbitrary: t)
  case 0
  then show ?case by (simp add: cycles_def)
next
  case (Suc n)
  let ?t' = "rb_step (rb_step t (Write full_record)) Drain"
  have unfold: "foldl rb_step t (cycles (Suc n)) = foldl rb_step ?t' (cycles n)"
    by (simp add: cycles_def del: rb_step.simps)
  have "rb_writeIndex (tr_rb t) + 256 < 2147483648"
    using Suc.prems(3) by simp
  with Suc.prems have step: "queue_inv (tr_rb ?t') []" "rb_size (tr_rb ?t') = rb_size (tr_rb t)"
    "rb_writeIndex (tr_rb ?t') = rb_writeIndex (tr_rb t) + 256"
    "tr_written ?t' = tr_written t @ [full_record]"
    "tr_delivered ?t' = tr_delivered t @ [full_record]"
    using cycle_step [of t] by simp_all
  have "rb_writeIndex (tr_rb ?t') + 256 * int n < 2147483648"
    using Suc.prems(3) step(3) by simp
  with Suc.IH [of ?t'] step Suc.prems(2) show ?case
    unfolding unfold by (simp add: replicate_app_Cons_same del: rb_step.simps)
qed

lemma wrap_state:
  "rb_writeIndex (tr_rb (rb_run 4096 (cycles 8388607))) = 2147483392 \<and>
   rb_readIndex (tr_rb (rb_run 4096 (cycles 8388607))) = 2147483392 \<and>
   rb_size (tr_rb (rb_run 4096 (cycles 8388607))) = 4096 \<and>
   tr_written (rb_run 4096 (cycles 8388607)) = replicate 8388607 full_record \<and>
   tr_delivered (rb_run 4096 (cycles 8388607)) = replicate 8388607 full_record"
proof -
  have 1: "queue_inv (tr_rb (rb_start 4096)) []"
    by (simp add: rb_start_def queue_inv_new)
  have 2: "256 \<le> rb_size (tr_rb (rb_start 4096))"
    by (simp add: rb_start_def new_RingBuffer_def rb_size_def)
  have 3: "rb_writeIndex (tr_rb (rb_start 4096)) + 256 * int 8388607 < 2147483648"
    by (simp add: rb_start_def new_RingBuffer_def)
  from foldl_cycles [OF 1 2 3] have
    "queue_inv (tr_rb (rb_run 4096 (cycles 8388607))) []"
    "rb_size (tr_rb (rb_run 4096 (cycles 8388607))) = 4096"
    "rb_writeIndex (tr_rb (rb_run 4096 (cycles 8388607))) = 2147483392"
    "tr_written (rb_run 4096 (cycles 8388607)) = replicate 8388607 full_record"
    "tr_delivered (rb_run 4096 (cycles 8388607)) = replicate 8388607 full_record"
    unfolding rb_run_def by (simp_all add: rb_start_def new_RingBuffer_def rb_size_def)
  moreover from this(1,3) have "rb_readIndex (tr_rb (rb_run 4096 (cycles 8388607))) = 2147483392"
    by (auto simp: queue_inv_def content_def)
  ultimately show ?thesis by simp
qed

lemma read_loop_short:
  "0 \<le> r \<Longrightarrow> buf \<noteq> [] \<Longrightarrow> v \<in> set (snd (snd (read_loop buf w r temp))) \<Longrightarrow> length v \<le> 255"
proof (induction buf w r temp rule: read_loop.induct)
  case (1 buf w r temp)
  show ?case
  proof (cases "r < w")
    case False
    with "1.prems" show ?thesis
      by (subst (asm) read_loop.simps) simp
  next
    case True
    let ?lb = "at_ring buf r"
    let ?len = "unat ?lb"
    define temp1 where "temp1 = (if length temp < ?len then replicate (?len + 64) 0 else temp)"
    define temp2 where "temp2 = read_data buf r ?len temp1"
    have get: "ta_get buf (js_rem r (int (length buf))) = Some ?lb"
      using "1.prems" by (simp add: ta_get_ring)
    have unfold: "snd (snd (read_loop buf w r temp)) =
        take ?len temp2 # snd (snd (read_loop buf w (r + (int ?len + 1)) temp2))"
      using True get
      by (subst read_loop.simps) (simp add: Let_def temp1_def temp2_def split_beta)
    have "?len \<le> 255"
      using unsigned_less [of ?lb, where ?'a = nat] by simp
    then have short: "length (take ?len temp2) \<le> 255"
      by simp
    from "1.prems"(3) unfold
    consider "v = take ?len temp2" | "v \<in> set (snd (snd (read_loop buf w (r + (int ?len + 1)) temp2)))"
      by auto
    then show ?thesis
    proof cases
      case 1
      with short show ?thesis by simp
    next
      case 2
      have "0 \<le> r + (int ?len + 1)"
        using "1.prems"(1) by simp
      from "1.IH" [OF True get refl temp1_def temp2_def refl this "1.prems"(2) 2]
      show ?thesis .
    qed
  qed
qed

lemma RingBuffer_read_frame:
  "rb_writeIndex (snd (RingBuffer_read rb)) = rb_writeIndex rb \<and>
   rb_buffer (snd (RingBuffer_read rb)) = rb_buffer rb"
  by (simp add: RingBuffer_read_def Let_def split_beta)

lemma RingBuffer_write_frame:
  "rb_readIndex (snd (RingBuffer_write rb d)) = rb_readIndex rb \<and>
   length (rb_buffer (snd (RingBuffer_write rb d))) = length (rb_buffer rb)"
  by (simp add: RingBuffer_write_def Let_def)

lemma content_take: "k \<le> n \<Longrightarrow> content buf r k = take k (content buf r n)"
  by (simp add: content_def take_map)

lemma read_loop_prefix:
  assumes "buf \<noteq> []" "0 \<le> r" "r \<le> w0" "w0 \<le> w"
    and "content buf r (nat (w0 - r)) = concat (map encode qs)"
    and "\<forall>q \<in> set qs. length q \<le> 255"
  shows "\<exists>temp'. snd (snd (read_loop buf w r temp)) = qs @ snd (snd (read_loop buf w w0 temp'))"
  using assms
proof (induction qs arbitrary: r temp)
  case Nil
  then have "nat (w0 - r) = 0"
    by (metis length_content concat.simps(1) list.map(1) list.size(3))
  with Nil.prems have "r = w0" by simp
  then show ?case by auto
next
  case (Cons q qs)
  let ?n = "length q"
  let ?rest = "concat (map encode qs)"
  let ?r' = "r + (int ?n + 1)"
  have q: "?n \<le> 255" using Cons.prems by simp
  have "length (content buf r (nat (w0 - r))) = length (encode q @ ?rest)"
    using Cons.prems(5) by simp
  then have total: "nat (w0 - r) = Suc ?n + length ?rest"
    by (simp add: encode_def)
  then have lt: "r < w" and r'w: "?r' \<le> w0"
    using Cons.prems(4) by linarith+
  have "content buf r (Suc ?n + length ?rest) = encode q @ ?rest"
    using Cons.prems(5) total by simp
  then have "content buf r (Suc ?n) @ content buf (r + int (Suc ?n)) (length ?rest) = encode q @ ?rest"
    by (simp only: content_append)
  moreover have "length (content buf r (Suc ?n)) = length (encode q)"
    by (simp add: encode_def)
  ultimately have "content buf r (Suc ?n) = encode q \<and>
      content buf (r + int (Suc ?n)) (length ?rest) = ?rest"
    by (metis append_eq_append_conv)
  then have fr: "content buf r (Suc ?n) = encode q"
    and rest: "content buf (r + int (Suc ?n)) (length ?rest) = ?rest"
    by blast+
  have "content buf r (1 + ?n) = content buf r 1 @ content buf (r + int 1) ?n"
    by (rule content_append)
  with fr have hd: "at_ring buf r = word_of_nat ?n" and pay: "content buf (r + 1) ?n = q"
    by (simp_all add: encode_def content_def)
  have get: "ta_get buf (js_rem r (int (length buf))) = Some (word_of_nat ?n)"
    using Cons.prems hd by (simp add: ta_get_ring)
  have len: "unat (word_of_nat ?n :: byte) = ?n"
    using q by (rule unat_length_byte)
  define temp1 where "temp1 = (if length temp < ?n then replicate (?n + 64) 0 else temp)"
  define temp2 where "temp2 = read_data buf r ?n temp1"
  have "?n \<le> length temp1" by (simp add: temp1_def)
  then have view: "take ?n temp2 = q"
    using Cons.prems pay by (simp add: temp2_def take_read_data)
  have "nat (w0 - ?r') = length ?rest"
    using total by linarith
  moreover have "r + int (Suc ?n) = ?r'" by simp
  ultimately have "content buf ?r' (nat (w0 - ?r')) = ?rest"
    using rest by (simp add: ac_simps)
  then obtain temp' where t:
    "snd (snd (read_loop buf w ?r' temp2)) = qs @ snd (snd (read_loop buf w w0 temp'))"
    using Cons.IH [of ?r' temp2] Cons.prems r'w by auto
  have "snd (snd (read_loop buf w r temp)) = q # snd (snd (read_loop buf w ?r' temp2))"
    using lt get len view
    by (subst read_loop.simps) (simp add: Let_def temp1_def temp2_def split_beta)
  with t show ?case by auto
qed

lemma read_loop_head:
  assumes "buf \<noteq> []" "0 \<le> r" "r < w"
  shows "\<exists>rest. snd (snd (read_loop buf w r temp))
           = content buf (r + 1) (unat (at_ring buf r)) # rest"
proof -
  let ?len = "unat (at_ring buf r)"
  define temp1 where "temp1 = (if length temp < ?len then replicate (?len + 64) 0 else temp)"
  define temp2 where "temp2 = read_data buf r ?len temp1"
  have get: "ta_get buf (js_rem r (int (length buf))) = Some (at_ring buf r)"
    using assms by (simp add: ta_get_ring)
  have "?len \<le> length temp1" by (simp add: temp1_def)
  then have view: "take ?len temp2 = content buf (r + 1) ?len"
    using assms by (simp add: temp2_def take_read_data)
  have "snd (snd (read_loop buf w r temp)) =
      take ?len temp2 # snd (snd (read_loop buf w (r + (int ?len + 1)) temp2))"
    using assms(3) get
    by (subst read_loop.simps) (simp add: Let_def temp1_def temp2_def split_beta)
  with view show ?thesis by simp
qed

lemma oversized_delivered:
  "fst (RingBuffer_read (snd (RingBuffer_write (new_RingBuffer 300) oversized)))
     = [[], [0], replicate 255 0]"
  by code_simp

lemma oversized_readIndex:
  "rb_readIndex (tr_rb (rb_run 300 [Write oversized, Drain])) = 259"
  by code_simp

lemma oversized_state:
  "rb_writeIndex (tr_rb (rb_run 300 [Write oversized, Drain])) = 257 \<and>
   rb_readIndex (tr_rb (rb_run 300 [Write oversized, Drain])) = 259 \<and>
   rb_size (tr_rb (rb_run 300 [Write oversized, Drain])) = 300"
proof -
  let ?rb0 = "new_RingBuffer 300"
  have len: "length oversized = 256"
    by (simp add: oversized_def)
  have "\<not> int (rb_size ?rb0) - (rb_writeIndex ?rb0 - rb_readIndex ?rb0) < int (length oversized) + 1"
    by (simp add: len new_RingBuffer_def rb_size_def)
  then have "rb_writeIndex (snd (RingBuffer_write ?rb0 oversized)) = 257"
    by (simp add: RingBuffer_write_accepted len to_int32_def new_RingBuffer_def del: write_data.simps)
  moreover have "length (rb_buffer (snd (RingBuffer_write ?rb0 oversized))) = 300"
    by (simp add: RingBuffer_write_frame new_RingBuffer_def)
  ultimately show ?thesis
    using oversized_readIndex
    by (simp add: rb_run_def rb_start_def rb_step_Write rb_step_Drain RingBuffer_read_frame rb_size_def
        del: rb_step.simps)
qed

section \<open>Lemmas on the audio stream and the render loop\<close>

lemma to_int32_le: "- 2147483648 \<le> x \<Longrightarrow> to_int32 x \<le> x"
proof -
  assume "- 2147483648 \<le> x"
  then have "0 \<le> x + 2147483648" by simp
  then have "(x + 2147483648) mod 4294967296 \<le> x + 2147483648"
    by (rule zmod_le_nonneg_dividend)
  then show ?thesis by (simp add: to_int32_def)
qed

lemma to_int32_ge: "- 2147483648 \<le> to_int32 x"
proof -
  have "0 \<le> (x + 2147483648) mod 4294967296" by simp
  then show ?thesis by (simp add: to_int32_def)
qed

lemma js_trunc_frames:
  assumes "0 \<le> w"
  shows "js_trunc (rat_of_int w + rat_of_nat n / rat_of_nat cc) = w + int (n div cc)"
proof -
  have "0 \<le> rat_of_int w + rat_of_nat n / rat_of_nat cc"
    using assms by simp
  then have "js_trunc (rat_of_int w + rat_of_nat n / rat_of_nat cc)
      = \<lfloor>rat_of_int w + rat_of_nat n / rat_of_nat cc\<rfloor>"
    by (simp add: js_trunc_def)
  also have "\<dots> = w + \<lfloor>rat_of_nat n / rat_of_nat cc\<rfloor>"
    by simp
  also have "\<lfloor>rat_of_nat n / rat_of_nat cc\<rfloor> = int (n div cc)"
    by (simp add: floor_divide_of_nat_eq)
  finally show ?thesis .
qed

lemma frames_le_available:
  assumes "\<not> rat_of_int a < rat_of_nat n / rat_of_nat cc"
  shows "int (n div cc) \<le> a"
proof -
  have "rat_of_int (int (n div cc)) = rat_of_int \<lfloor>rat_of_nat n / rat_of_nat cc\<rfloor>"
    by (simp add: floor_divide_of_nat_eq)
  also have "\<dots> \<le> rat_of_nat n / rat_of_nat cc"
    by (rule of_int_floor_le)
  also have "\<dots> \<le> rat_of_int a"
    using assms by simp
  finally show ?thesis by simp
qed

lemma AudioRingBuffer_write_rejected:
  "rat_of_int (availableWrite arb) < rat_of_nat (length inp) / rat_of_nat (arb_channelCount arb) \<Longrightarrow>
   AudioRingBuffer_write arb inp = (Inr 0, arb)"
  by (simp add: AudioRingBuffer_write_def Let_def)

lemma AudioRingBuffer_write_cases:
  assumes "\<not> rat_of_int (availableWrite arb) < rat_of_nat (length inp) / rat_of_nat (arb_channelCount arb)"
  obtains (threw) e buf where
      "AudioRingBuffer_write arb inp = (Inl e, arb\<lparr>arb_buffer := buf\<rparr>)"
    | (wrote) buf where
      "write_copy (arb_buffer arb) inp (js_rem_nan (arb_writeIndex arb) (int (arb_capacity arb)))
         (arb_channelCount arb) = (None, buf)"
      "AudioRingBuffer_write arb inp =
         (Inr (rat_of_nat (length inp) / rat_of_nat (arb_channelCount arb)),
          arb\<lparr>arb_buffer := buf,
              arb_writeIndex := to_int32 (js_trunc (rat_of_int (arb_writeIndex arb)
                + rat_of_nat (length inp) / rat_of_nat (arb_channelCount arb)))\<rparr>)"
proof -
  obtain err buf where wc: "write_copy (arb_buffer arb) inp
      (js_rem_nan (arb_writeIndex arb) (int (arb_capacity arb))) (arb_channelCount arb) = (err, buf)"
    by (cases "write_copy (arb_buffer arb) inp
      (js_rem_nan (arb_writeIndex arb) (int (arb_capacity arb))) (arb_channelCount arb)")
  show thesis
  proof (cases err)
    case None
    with assms wc show thesis
      by (intro wrote [of buf]) (simp_all add: AudioRingBuffer_write_def Let_def)
  next
    case (Some e)
    with assms wc show thesis
      by (intro threw [of e buf]) (simp add: AudioRingBuffer_write_def Let_def)
  qed
qed

lemma AudioRingBuffer_read_underrun:
  "availableRead arb < int n \<Longrightarrow> AudioRingBuffer_read arb out n = (False, arb, out)"
  by (simp add: AudioRingBuffer_read_def Let_def)

lemma AudioRingBuffer_read_ok:
  "\<not> availableRead arb < int n \<Longrightarrow>
   fst (AudioRingBuffer_read arb out n) \<and>
   fst (snd (AudioRingBuffer_read arb out n)) = arb\<lparr>arb_readIndex := to_int32 (arb_readIndex arb + int n)\<rparr>"
  by (simp add: AudioRingBuffer_read_def Let_def)

lemma arb_inv_write:
  assumes inv: "arb_inv arb"
    and rng: "arb_writeIndex arb + int (length inp div arb_channelCount arb) < 2147483648"
  shows "arb_inv (snd (AudioRingBuffer_write arb inp)) \<and>
         arb_channelCount (snd (AudioRingBuffer_write arb inp)) = arb_channelCount arb \<and>
         arb_writeIndex (snd (AudioRingBuffer_write arb inp))
           \<le> arb_writeIndex arb + int (length inp div arb_channelCount arb)"
proof (cases "rat_of_int (availableWrite arb) < rat_of_nat (length inp) / rat_of_nat (arb_channelCount arb)")
  case True
  then have "AudioRingBuffer_write arb inp = (Inr 0, arb)"
    by (rule AudioRingBuffer_write_rejected)
  with inv show ?thesis by simp
next
  case False
  then show ?thesis
  proof (cases rule: AudioRingBuffer_write_cases)
    case (threw e buf)
    with inv show ?thesis by (simp add: arb_inv_def)
  next
    case (wrote buf)
    let ?k = "int (length inp div arb_channelCount arb)"
    from inv have w0: "0 \<le> arb_writeIndex arb"
      by (simp add: arb_inv_def)
    then have tr: "js_trunc (rat_of_int (arb_writeIndex arb)
        + rat_of_nat (length inp) / rat_of_nat (arb_channelCount arb)) = arb_writeIndex arb + ?k"
      by (rule js_trunc_frames)
    have "to_int32 (arb_writeIndex arb + ?k) = arb_writeIndex arb + ?k"
      using w0 rng by (intro to_int32_id) linarith+
    moreover have "?k \<le> availableWrite arb"
      using False by (rule frames_le_available)
    ultimately show ?thesis
      using inv wrote(2) tr rng by (simp add: arb_inv_def availableWrite_def)
  qed
qed

lemma arb_inv_read:
  assumes inv: "arb_inv arb"
  shows "arb_inv (fst (snd (AudioRingBuffer_read arb out n))) \<and>
         arb_channelCount (fst (snd (AudioRingBuffer_read arb out n))) = arb_channelCount arb \<and>
         arb_writeIndex (fst (snd (AudioRingBuffer_read arb out n))) = arb_writeIndex arb"
proof (cases "availableRead arb < int n")
  case True
  with inv show ?thesis by (simp add: AudioRingBuffer_read_underrun)
next
  case False
  from inv False have "to_int32 (arb_readIndex arb + int n) = arb_readIndex arb + int n"
    by (intro to_int32_id) (simp_all add: arb_inv_def availableRead_def)
  with inv False AudioRingBuffer_read_ok [OF False, of out] show ?thesis
    by (simp add: arb_inv_def availableRead_def)
qed

lemma foldl_arb_step_inv:
  assumes "arb_inv arb"
    and "arb_writeIndex arb \<le> int n"
    and "n + arb_traffic (arb_channelCount arb) ops < 2147483648"
  shows "arb_inv (foldl arb_step arb ops)"
  using assms
proof (induction ops arbitrary: arb n)
  case Nil
  then show ?case by simp
next
  case (Cons op ops)
  let ?cc = "arb_channelCount arb"
  have cost: "n + arb_cost ?cc op < 2147483648"
    and rest: "n + arb_cost ?cc op + arb_traffic ?cc ops < 2147483648"
    using Cons.prems(3) by (simp_all add: arb_traffic_def)
  have step: "arb_inv (arb_step arb op) \<and> arb_channelCount (arb_step arb op) = ?cc \<and>
      arb_writeIndex (arb_step arb op) \<le> int (n + arb_cost ?cc op)"
  proof (cases op)
    case (AWrite inp)
    have "arb_writeIndex arb + int (length inp div ?cc) < 2147483648"
      using Cons.prems(2) cost AWrite by simp
    from arb_inv_write [OF Cons.prems(1) this] Cons.prems(2) AWrite show ?thesis
      by simp
  next
    case (ARead out k)
    from arb_inv_read [OF Cons.prems(1), of out k] Cons.prems(2) ARead show ?thesis
      by simp
  qed
  then have "arb_inv (foldl arb_step (arb_step arb op) ops)"
    using rest by (intro Cons.IH [of _ "n + arb_cost ?cc op"]) simp_all
  then show ?case by simp
qed

lemma arb_inv_new: "arb_inv (new_AudioRingBuffer cc cap)"
  by (simp add: arb_inv_def new_AudioRingBuffer_def Let_def)

lemma arb_run_inv:
  assumes "arb_traffic (arb_channelCount (new_AudioRingBuffer cc cap)) ops < 2147483648"
  shows "arb_inv (arb_run cc cap ops)"
  unfolding arb_run_def
  using arb_inv_new _ assms
  by (rule foldl_arb_step_inv [where n = 0, simplified]) (simp add: new_AudioRingBuffer_def Let_def)

lemma renders_append: "renders (xs @ ys) = renders xs @ renders ys"
  by (induction xs rule: renders.induct) simp_all

lemma renders_command_callback: "renders (command_callback d eng) = renders eng"
  by (simp add: command_callback_def Let_def renders_append)

lemma renders_fold_command_callback: "renders (fold command_callback vs eng) = renders eng"
  by (induction vs arbitrary: eng) (simp_all add: renders_command_callback)

lemma processCommands_frame:
  "wk_isReady (processCommands wk) = wk_isReady wk \<and>
   wk_audioRingBuffer (processCommands wk) = wk_audioRingBuffer wk \<and>
   wk_targetBufferSize (processCommands wk) = wk_targetBufferSize wk \<and>
   wk_bufferSize (processCommands wk) = wk_bufferSize wk \<and>
   renders (wk_moduleInstance (processCommands wk)) = renders (wk_moduleInstance wk)"
  by (simp add: processCommands_def split_beta renders_fold_command_callback split: option.splits)

lemma length_ta_set_from: "ta_set_from xs src off = Inr ys \<Longrightarrow> length ys = length xs"
  by (auto simp: ta_set_from_def split: if_splits)

lemma ta_set_from_ok:
  "0 \<le> off \<Longrightarrow> int (length src) + off \<le> int (length xs) \<Longrightarrow>
   \<exists>ys. ta_set_from xs src off = Inr ys \<and> length ys = length xs"
  by (auto simp: ta_set_from_def)

lemma write_copy_ok:
  assumes w0: "0 \<le> w" and cap: "0 < cap" and cc: "0 < cc"
    and len: "length buffer = cap * cc"
    and fit: "length inp \<le> cap * cc"
  shows "\<exists>buf. write_copy buffer inp (js_rem_nan w (int cap)) cc = (None, buf) \<and>
           length buf = length buffer"
proof -
  let ?k = "w mod int cap"
  let ?off = "?k * int cc"
  have rem: "js_rem_nan w (int cap) = Some ?k"
    using w0 cap by (simp add: js_rem_nan_def js_rem_def)
  have k: "0 \<le> ?k" "?k < int cap"
    using cap by simp_all
  have off0: "0 \<le> ?off"
    using k by simp
  have "?k + 1 \<le> int cap" using k by simp
  then have "(?k + 1) * int cc \<le> int cap * int cc"
    by (intro mult_right_mono) simp_all
  then have off1: "?off + int cc \<le> int (length buffer)"
    by (simp add: len algebra_simps)
  show ?thesis
  proof (cases "?off + int (length inp) \<le> int (length buffer)")
    case True
    then obtain ys where "ta_set_from buffer inp ?off = Inr ys" "length ys = length buffer"
      using ta_set_from_ok [of ?off inp buffer] off0 by (auto simp: add.commute)
    with rem True show ?thesis
      by (simp add: write_copy_def Let_def)
  next
    case False
    let ?first = "int (length buffer) - ?off"
    have f0: "0 < ?first" using off1 cc by linarith
    have f1: "?first < int (length inp)" using False by linarith
    have sub: "subarray inp 0 ?first = take (nat ?first) inp"
      using f0 f1 by (simp add: subarray_def js_clamp_def Let_def min_def)
    have sub2: "subarray_from inp ?first = drop (nat ?first) inp"
      using f0 f1 by (simp add: subarray_from_def js_clamp_def min_def)
    have "int (length (take (nat ?first) inp)) + ?off \<le> int (length buffer)"
      using f0 f1 by simp
    then obtain b1 where b1: "ta_set_from buffer (take (nat ?first) inp) ?off = Inr b1"
      and lb1: "length b1 = length buffer"
      using ta_set_from_ok [of ?off "take (nat ?first) inp" buffer] off0 by blast
    have "length (drop (nat ?first) inp) \<le> length inp"
      by simp
    then have "int (length (drop (nat ?first) inp)) + 0 \<le> int (length b1)"
      using fit len lb1 by linarith
    then obtain b2 where b2: "ta_set_from b1 (drop (nat ?first) inp) 0 = Inr b2"
      and lb2: "length b2 = length b1"
      using ta_set_from_ok [of 0 "drop (nat ?first) inp" b1] by blast
    from rem False b1 b2 sub sub2 lb1 lb2 show ?thesis
      by (simp add: write_copy_def Let_def)
  qed
qed

lemma length_interleave [simp]: "length (interleave l r n) = 2 * n"
  by (induction n) (simp_all add: interleave_def)

lemma AudioRingBuffer_write_wrote:
  assumes "\<not> rat_of_int (availableWrite arb) < rat_of_nat (length inp) / rat_of_nat (arb_channelCount arb)"
    and "write_copy (arb_buffer arb) inp (js_rem_nan (arb_writeIndex arb) (int (arb_capacity arb)))
           (arb_channelCount arb) = (None, buf)"
  shows "AudioRingBuffer_write arb inp =
           (Inr (rat_of_nat (length inp) / rat_of_nat (arb_channelCount arb)),
            arb\<lparr>arb_buffer := buf,
                arb_writeIndex := to_int32 (js_trunc (rat_of_int (arb_writeIndex arb)
                  + rat_of_nat (length inp) / rat_of_nat (arb_channelCount arb)))\<rparr>)"
  using assms by (simp add: AudioRingBuffer_write_def Let_def)

lemma write_block:
  assumes inv: "arb_inv arb" and cc: "arb_channelCount arb = 2" and cap: "0 < arb_capacity arb"
    and len: "length (arb_buffer arb) = arb_capacity arb * 2"
    and block: "length block = 2 * bs" and room: "int bs \<le> availableWrite arb"
  shows "\<exists>buf. AudioRingBuffer_write arb block =
           (Inr (rat_of_nat bs),
            arb\<lparr>arb_buffer := buf, arb_writeIndex := to_int32 (arb_writeIndex arb + int bs)\<rparr>) \<and>
           length buf = length (arb_buffer arb)"
proof -
  from inv have w0: "0 \<le> arb_writeIndex arb" and rw: "arb_readIndex arb \<le> arb_writeIndex arb"
    by (simp_all add: arb_inv_def)
  have frames: "rat_of_nat (length block) / rat_of_nat (arb_channelCount arb) = rat_of_nat bs"
    by (simp add: block cc)
  have "rat_of_nat bs \<le> rat_of_int (availableWrite arb)"
    using room by (metis of_int_le_iff of_int_of_nat_eq)
  then have acc: "\<not> rat_of_int (availableWrite arb)
      < rat_of_nat (length block) / rat_of_nat (arb_channelCount arb)"
    by (simp add: frames)
  have "int bs \<le> int (arb_capacity arb)"
    using room rw by (simp add: availableWrite_def)
  then have fit: "length block \<le> arb_capacity arb * arb_channelCount arb"
    by (simp add: block cc)
  obtain buf where wc: "write_copy (arb_buffer arb) block
      (js_rem_nan (arb_writeIndex arb) (int (arb_capacity arb))) (arb_channelCount arb) = (None, buf)"
    and lbuf: "length buf = length (arb_buffer arb)"
    using write_copy_ok [OF w0 cap _ _ fit, of "arb_buffer arb"] len cc by auto
  have "js_trunc (rat_of_int (arb_writeIndex arb)
      + rat_of_nat (length block) / rat_of_nat (arb_channelCount arb)) = arb_writeIndex arb + int bs"
    using js_trunc_frames [OF w0, of "length block" "arb_channelCount arb"]
    by (simp add: block cc)
  with AudioRingBuffer_write_wrote [OF acc wc] frames lbuf show ?thesis
    by auto
qed

lemma processCommands_idle:
  assumes "wk_commandRingBuffer wk = Some rb" "rb_readIndex rb = rb_writeIndex rb"
  shows "processCommands wk = wk"
  using assms by (simp add: processCommands_def RingBuffer_read_def)

lemma renderLoop_open:
  assumes ready: "wk_isReady wk" and audio: "wk_audioRingBuffer wk = Some arb"
    and idle: "processCommands wk = wk"
    and gate: "rat_of_int (availableRead arb) < wk_targetBufferSize wk"
      "int (wk_bufferSize wk) \<le> availableWrite arb"
  shows "snd (renderLoop dsp wk) =
           wk\<lparr>wk_moduleInstance := wk_moduleInstance wk @ [Render (wk_bufferSize wk)],
              wk_audioRingBuffer := Some (snd (AudioRingBuffer_write arb
                (interleave (fst (dsp (wk_moduleInstance wk @ [Render (wk_bufferSize wk)])))
                            (snd (dsp (wk_moduleInstance wk @ [Render (wk_bufferSize wk)])))
                            (wk_bufferSize wk))))\<rparr> \<and>
         (\<forall>e. fst (AudioRingBuffer_write arb
                (interleave (fst (dsp (wk_moduleInstance wk @ [Render (wk_bufferSize wk)])))
                            (snd (dsp (wk_moduleInstance wk @ [Render (wk_bufferSize wk)])))
                            (wk_bufferSize wk))) = Inl e
              \<longrightarrow> fst (renderLoop dsp wk) = Inl e)"
  using ready audio gate
  by (simp add: renderLoop_def idle Let_def split_beta split: sum.splits)

lemma process_quantum:
  "fst (snd (process (Some arb) quantum))
     = Some (fst (snd (AudioRingBuffer_read arb (replicate 128 0, replicate 128 0) 128)))"
  by (simp add: process_def quantum_def split_beta del: replicate.simps)

lemma stream_at_cycle:
  assumes at: "stream_at wk w w" and w0: "0 \<le> w" and rng: "w + 128 < 2147483648"
  shows "stream_at (stream_cycle dsp wk) (w + 128) (w + 128)"
proof -
  from at obtain arb where audio: "wk_audioRingBuffer wk = Some arb"
    and shape: "arb_channelCount arb = 2" "arb_capacity arb = 4096" "length (arb_buffer arb) = 8192"
    and idx: "arb_writeIndex arb = w" "arb_readIndex arb = w"
    and wk: "wk_isReady wk" "wk_bufferSize wk = 128" "wk_targetBufferSize wk = 1024"
      "wk_commandRingBuffer wk = Some (new_RingBuffer 4096)"
    by (auto simp: stream_at_def split: option.splits)
  have idle: "processCommands wk = wk"
    using wk(4) by (rule processCommands_idle) (simp add: new_RingBuffer_def)
  let ?eng = "wk_moduleInstance wk @ [Render (wk_bufferSize wk)]"
  let ?block = "interleave (fst (dsp ?eng)) (snd (dsp ?eng)) (wk_bufferSize wk)"
  have inv: "arb_inv arb"
    using shape idx w0 rng by (simp add: arb_inv_def)
  have gate: "rat_of_int (availableRead arb) < wk_targetBufferSize wk"
    "int (wk_bufferSize wk) \<le> availableWrite arb"
    using shape idx wk by (simp_all add: availableRead_def availableWrite_def)
  obtain buf where wr: "AudioRingBuffer_write arb ?block =
      (Inr (rat_of_nat (wk_bufferSize wk)),
       arb\<lparr>arb_buffer := buf, arb_writeIndex := to_int32 (arb_writeIndex arb + int (wk_bufferSize wk))\<rparr>)"
    and lbuf: "length buf = length (arb_buffer arb)"
    using write_block [OF inv shape(1) _ _ _ gate(2), of ?block] shape by auto
  have w': "to_int32 (arb_writeIndex arb + int (wk_bufferSize wk)) = w + 128"
    using idx wk w0 rng by (simp add: to_int32_id)
  let ?arb1 = "arb\<lparr>arb_buffer := buf, arb_writeIndex := w + 128\<rparr>"
  have rl: "snd (renderLoop dsp wk) = wk\<lparr>wk_moduleInstance := ?eng, wk_audioRingBuffer := Some ?arb1\<rparr>"
    using renderLoop_open [OF wk(1) audio idle gate, of dsp] by (simp add: wr w')
  have "\<not> availableRead ?arb1 < int 128"
    using idx by (simp add: availableRead_def)
  from AudioRingBuffer_read_ok [OF this, of "(replicate 128 0, replicate 128 0)"]
  have rd: "fst (snd (AudioRingBuffer_read ?arb1 (replicate 128 0, replicate 128 0) 128))
      = ?arb1\<lparr>arb_readIndex := to_int32 (arb_readIndex ?arb1 + int 128)\<rparr>"
    by simp
  have r': "to_int32 (w + 128) = w + 128"
    using w0 rng by (simp add: to_int32_id)
  show ?thesis
    using wk shape lbuf idx
    by (simp add: stream_cycle_def Let_def rl process_quantum rd r' stream_at_def)
qed

lemma stream_at_run:
  "n \<le> 16777215 \<Longrightarrow> stream_at (stream_run dsp n) (128 * int n) (128 * int n)"
proof (induction n)
  case 0
  show ?case
    by (simp add: stream_run_def stream_at_def dual_ready_def AudioRingBuffer_of_sab_def
        new_AudioRingBuffer_def Let_def)
next
  case (Suc n)
  then have at: "stream_at (stream_run dsp n) (128 * int n) (128 * int n)"
    by simp
  have "stream_at (stream_cycle dsp (stream_run dsp n)) (128 * int n + 128) (128 * int n + 128)"
    using Suc.prems by (intro stream_at_cycle [OF at]) simp_all
  then show ?case
    by (simp add: stream_run_def algebra_simps)
qed

lemma stream_underrun:
  assumes shape: "wk_audioRingBuffer wk1 = Some arb1" and under: "availableRead arb1 < 128"
  shows "wk1\<lparr>wk_audioRingBuffer := fst (snd (process (wk_audioRingBuffer wk1) quantum))\<rparr>
         = wk1\<lparr>wk_audioRingBuffer := Some arb1\<rparr>"
proof -
  have "availableRead arb1 < int 128"
    using under by simp
  then have "AudioRingBuffer_read arb1 (replicate 128 0, replicate 128 0) 128
      = (False, arb1, (replicate 128 0, replicate 128 0))"
    by (rule AudioRingBuffer_read_underrun)
  then show ?thesis
    by (simp add: shape process_quantum)
qed

lemma stream_at_wrap:
  assumes at: "stream_at wk 2147483520 2147483520"
  shows "stream_at (stream_cycle dsp wk) (- 2147483648) 2147483520"
proof -
  from at obtain arb where audio: "wk_audioRingBuffer wk = Some arb"
    and shape: "arb_channelCount arb = 2" "arb_capacity arb = 4096" "length (arb_buffer arb) = 8192"
    and idx: "arb_writeIndex arb = 2147483520" "arb_readIndex arb = 2147483520"
    and wk: "wk_isReady wk" "wk_bufferSize wk = 128" "wk_targetBufferSize wk = 1024"
      "wk_commandRingBuffer wk = Some (new_RingBuffer 4096)"
    by (auto simp: stream_at_def split: option.splits)
  have idle: "processCommands wk = wk"
    using wk(4) by (rule processCommands_idle) (simp add: new_RingBuffer_def)
  let ?eng = "wk_moduleInstance wk @ [Render (wk_bufferSize wk)]"
  let ?block = "interleave (fst (dsp ?eng)) (snd (dsp ?eng)) (wk_bufferSize wk)"
  have inv: "arb_inv arb"
    using shape idx by (simp add: arb_inv_def)
  have gate: "rat_of_int (availableRead arb) < wk_targetBufferSize wk"
    "int (wk_bufferSize wk) \<le> availableWrite arb"
    using shape idx wk by (simp_all add: availableRead_def availableWrite_def)
  obtain buf where wr: "AudioRingBuffer_write arb ?block =
      (Inr (rat_of_nat (wk_bufferSize wk)),
       arb\<lparr>arb_buffer := buf, arb_writeIndex := to_int32 (arb_writeIndex arb + int (wk_bufferSize wk))\<rparr>)"
    and lbuf: "length buf = length (arb_buffer arb)"
    using write_block [OF inv shape(1) _ _ _ gate(2), of ?block] shape by auto
  have w': "to_int32 (arb_writeIndex arb + int (wk_bufferSize wk)) = - 2147483648"
    using idx wk by (simp add: to_int32_def)
  let ?arb1 = "arb\<lparr>arb_buffer := buf, arb_writeIndex := - 2147483648\<rparr>"
  let ?wk1 = "wk\<lparr>wk_moduleInstance := ?eng, wk_audioRingBuffer := Some ?arb1\<rparr>"
  have rl: "snd (renderLoop dsp wk) = ?wk1"
    using renderLoop_open [OF wk(1) audio idle gate, of dsp] by (simp add: wr w')
  have "availableRead ?arb1 < 128"
    using idx by (simp add: availableRead_def)
  from stream_underrun [of ?wk1 ?arb1, OF _ this]
  have "stream_cycle dsp wk = ?wk1\<lparr>wk_audioRingBuffer := Some ?arb1\<rparr>"
    by (simp add: stream_cycle_def Let_def rl)
  then show ?thesis
    using wk shape lbuf idx by (simp add: stream_at_def)
qed

lemma write_past_wrap:
  assumes "arb_channelCount arb = 2" "arb_capacity arb = 4096" "length (arb_buffer arb) = 8192"
    and "arb_writeIndex arb = - 2147483648" "arb_readIndex arb = 2147483520"
    and "length block = 256"
  shows "AudioRingBuffer_write arb block =
           (Inr 128, arb\<lparr>arb_buffer := block @ drop 256 (arb_buffer arb),
                          arb_writeIndex := - 2147483520\<rparr>)"
  using assms
  by (simp add: AudioRingBuffer_write_def availableWrite_def write_copy_def js_rem_nan_def js_rem_def
      ta_set_from_def js_trunc_def to_int32_def Let_def)

lemma write_throws_past_wrap:
  assumes "arb_channelCount arb = 2" "arb_capacity arb = 4096" "length (arb_buffer arb) = 8192"
    and "arb_writeIndex arb = - 2147483520" "arb_readIndex arb = 2147483520"
    and "length block = 256"
  shows "AudioRingBuffer_write arb block = (Inl RangeError, arb)"
  using assms
  by (simp add: AudioRingBuffer_write_def availableWrite_def write_copy_def js_rem_nan_def js_rem_def
      ta_set_from_def Let_def)

lemma stream_at_past_wrap:
  assumes at: "stream_at wk (- 2147483648) 2147483520"
  shows "stream_at (stream_cycle dsp wk) (- 2147483520) 2147483520"
proof -
  from at obtain arb where audio: "wk_audioRingBuffer wk = Some arb"
    and shape: "arb_channelCount arb = 2" "arb_capacity arb = 4096" "length (arb_buffer arb) = 8192"
    and idx: "arb_writeIndex arb = - 2147483648" "arb_readIndex arb = 2147483520"
    and wk: "wk_isReady wk" "wk_bufferSize wk = 128" "wk_targetBufferSize wk = 1024"
      "wk_commandRingBuffer wk = Some (new_RingBuffer 4096)"
    by (auto simp: stream_at_def split: option.splits)
  have idle: "processCommands wk = wk"
    using wk(4) by (rule processCommands_idle) (simp add: new_RingBuffer_def)
  let ?eng = "wk_moduleInstance wk @ [Render (wk_bufferSize wk)]"
  let ?block = "interleave (fst (dsp ?eng)) (snd (dsp ?eng)) (wk_bufferSize wk)"
  have gate: "rat_of_int (availableRead arb) < wk_targetBufferSize wk"
    "int (wk_bufferSize wk) \<le> availableWrite arb"
    using shape idx wk by (simp_all add: availableRead_def availableWrite_def)
  let ?arb1 = "arb\<lparr>arb_buffer := ?block @ drop 256 (arb_buffer arb), arb_writeIndex := - 2147483520\<rparr>"
  have wr: "AudioRingBuffer_write arb ?block = (Inr 128, ?arb1)"
    using shape idx by (intro write_past_wrap) (simp_all add: wk)
  let ?wk1 = "wk\<lparr>wk_moduleInstance := ?eng, wk_audioRingBuffer := Some ?arb1\<rparr>"
  have rl: "snd (renderLoop dsp wk) = ?wk1"
    using renderLoop_open [OF wk(1) audio idle gate, of dsp] by (simp add: wr)
  have "availableRead ?arb1 < 128"
    using idx by (simp add: availableRead_def)
  from stream_underrun [of ?wk1 ?arb1, OF _ this]
  have "stream_cycle dsp wk = ?wk1\<lparr>wk_audioRingBuffer := Some ?arb1\<rparr>"
    by (simp add: stream_cycle_def Let_def rl)
  then show ?thesis
    using wk shape idx by (simp add: stream_at_def)
qed

lemma stream_run_past_wrap:
  "stream_at (stream_run dsp 16777217) (- 2147483520) 2147483520"
proof -
  have "stream_at (stream_run dsp 16777215) (128 * int 16777215) (128 * int 16777215)"
    by (rule stream_at_run) simp
  then have "stream_at (stream_run dsp 16777215) 2147483520 2147483520"
    by simp
  then have "stream_at (stream_cycle dsp (stream_cycle dsp (stream_run dsp 16777215)))
      (- 2147483520) 2147483520"
    by (intro stream_at_past_wrap stream_at_wrap)
  moreover have "stream_run dsp 16777217 = stream_cycle dsp (stream_cycle dsp (stream_run dsp 16777215))"
  proof -
    have "(16777217 :: nat) = Suc (Suc 16777215)" by simp
    then show ?thesis
      by (simp only: stream_run_def funpow.simps o_apply)
  qed
  ultimately show ?thesis by simp
qed

lemma renderLoop_in_order:
  assumes ready: "wk_isReady wk" and audio: "wk_audioRingBuffer wk = Some arb"
    and inv: "arb_inv arb" and cc: "arb_channelCount arb = 2" and cap: "0 < arb_capacity arb"
    and len: "length (arb_buffer arb) = arb_capacity arb * 2"
  shows "(wk_targetBufferSize wk \<le> rat_of_int (availableRead arb) \<or>
          availableWrite arb < int (wk_bufferSize wk) \<longrightarrow>
            renders (wk_moduleInstance (snd (renderLoop dsp wk))) = renders (wk_moduleInstance wk) \<and>
            wk_audioRingBuffer (snd (renderLoop dsp wk)) = Some arb) \<and>
         (rat_of_int (availableRead arb) < wk_targetBufferSize wk \<and>
          int (wk_bufferSize wk) \<le> availableWrite arb \<longrightarrow>
            renders (wk_moduleInstance (snd (renderLoop dsp wk)))
              = renders (wk_moduleInstance wk) @ [wk_bufferSize wk] \<and>
            (\<exists>arb'.
               wk_audioRingBuffer (snd (renderLoop dsp wk)) = Some arb' \<and>
               AudioRingBuffer_write arb
                 (interleave
                    (fst (dsp (wk_moduleInstance (processCommands wk) @ [Render (wk_bufferSize wk)])))
                    (snd (dsp (wk_moduleInstance (processCommands wk) @ [Render (wk_bufferSize wk)])))
                    (wk_bufferSize wk))
                 = (Inr (rat_of_nat (wk_bufferSize wk)), arb') \<and>
               arb_writeIndex arb' = to_int32 (arb_writeIndex arb + int (wk_bufferSize wk)) \<and>
               arb_readIndex arb' = arb_readIndex arb \<and>
               rat_of_int (availableRead arb') < wk_targetBufferSize wk + rat_of_nat (wk_bufferSize wk)))"
proof (intro conjI impI)
  let ?wk1 = "processCommands wk"
  note fr = processCommands_frame [of wk]
  assume gate: "wk_targetBufferSize wk \<le> rat_of_int (availableRead arb) \<or>
      availableWrite arb < int (wk_bufferSize wk)"
  then have "snd (renderLoop dsp wk) = ?wk1"
    using ready audio fr by (auto simp: renderLoop_def Let_def)
  then show "renders (wk_moduleInstance (snd (renderLoop dsp wk))) = renders (wk_moduleInstance wk)"
    and "wk_audioRingBuffer (snd (renderLoop dsp wk)) = Some arb"
    using fr audio by simp_all
next
  let ?wk1 = "processCommands wk"
  let ?bs = "wk_bufferSize wk"
  let ?eng = "wk_moduleInstance ?wk1 @ [Render ?bs]"
  let ?block = "interleave (fst (dsp ?eng)) (snd (dsp ?eng)) ?bs"
  note fr = processCommands_frame [of wk]
  assume go: "rat_of_int (availableRead arb) < wk_targetBufferSize wk \<and> int ?bs \<le> availableWrite arb"
  obtain buf where wr: "AudioRingBuffer_write arb ?block =
      (Inr (rat_of_nat ?bs),
       arb\<lparr>arb_buffer := buf, arb_writeIndex := to_int32 (arb_writeIndex arb + int ?bs)\<rparr>)"
    using write_block [OF inv cc cap len, of ?block ?bs] go by auto
  let ?arb' = "arb\<lparr>arb_buffer := buf, arb_writeIndex := to_int32 (arb_writeIndex arb + int ?bs)\<rparr>"
  have res: "snd (renderLoop dsp wk) =
      ?wk1\<lparr>wk_moduleInstance := ?eng, wk_audioRingBuffer := Some ?arb'\<rparr>"
    using ready audio fr go wr by (simp add: renderLoop_def Let_def split_beta)
  show "renders (wk_moduleInstance (snd (renderLoop dsp wk))) = renders (wk_moduleInstance wk) @ [?bs]"
    using fr by (simp add: res renders_append)
  from inv have "- 2147483648 \<le> arb_writeIndex arb + int ?bs"
    by (simp add: arb_inv_def)
  then have "to_int32 (arb_writeIndex arb + int ?bs) \<le> arb_writeIndex arb + int ?bs"
    by (rule to_int32_le)
  then have "availableRead ?arb' \<le> availableRead arb + int ?bs"
    by (simp add: availableRead_def)
  then have "rat_of_int (availableRead ?arb') \<le> rat_of_int (availableRead arb + int ?bs)"
    by (simp only: of_int_le_iff)
  then have "rat_of_int (availableRead ?arb') < wk_targetBufferSize wk + rat_of_nat ?bs"
    using go by simp
  then show "\<exists>arb'.
      wk_audioRingBuffer (snd (renderLoop dsp wk)) = Some arb' \<and>
      AudioRingBuffer_write arb ?block = (Inr (rat_of_nat ?bs), arb') \<and>
      arb_writeIndex arb' = to_int32 (arb_writeIndex arb + int ?bs) \<and>
      arb_readIndex arb' = arb_readIndex arb \<and>
      rat_of_int (availableRead arb') < wk_targetBufferSize wk + rat_of_nat ?bs"
    using wr by (intro exI [of _ ?arb']) (simp add: res)
qed

section \<open>Lemmas on numbers\<close>

lemma round_half_even_le: "m \<le> rat_of_int N \<Longrightarrow> round_half_even m \<le> N"
proof -
  assume le: "m \<le> rat_of_int N"
  then have f: "\<lfloor>m\<rfloor> \<le> N"
    by (simp add: floor_le_iff)
  show ?thesis
  proof (cases "\<lfloor>m\<rfloor> = N")
    case True
    with le have "m - rat_of_int \<lfloor>m\<rfloor> \<le> 0" by simp
    then have "m - rat_of_int \<lfloor>m\<rfloor> < 1 / 2" by simp
    with True show ?thesis by (simp add: round_half_even_def Let_def)
  next
    case False
    with f have "\<lfloor>m\<rfloor> + 1 \<le> N" by simp
    with f show ?thesis by (simp add: round_half_even_def Let_def)
  qed
qed

lemma round_half_even_ge: "rat_of_int N \<le> m \<Longrightarrow> N \<le> round_half_even m"
proof -
  assume "rat_of_int N \<le> m"
  then have "N \<le> \<lfloor>m\<rfloor>" by (simp add: le_floor_iff)
  then show ?thesis by (simp add: round_half_even_def Let_def)
qed

lemma binade_le: "0 < x \<Longrightarrow> x \<le> 255 \<Longrightarrow> binade x \<le> 7"
proof -
  assume x: "0 < x" "x \<le> 255"
  show ?thesis
  proof (cases "1 \<le> x")
    case True
    have "\<lfloor>x\<rfloor> < 2 ^ nat 8"
      using x by (simp add: floor_less_iff)
    then have "bitlen \<lfloor>x\<rfloor> \<le> 8"
      by (simp add: bitlen_le_iff_power)
    with True x show ?thesis by (simp add: binade_def)
  next
    case False
    with x bitlen_nonneg [of "\<lceil>1 / x\<rceil> - 1"] show ?thesis
      by (simp add: binade_def)
  qed
qed

lemma round_double_byte:
  assumes "0 \<le> x" "x \<le> 255"
  shows "0 \<le> round_double x \<and> round_double x \<le> 255"
proof (cases "x = 0")
  case True
  then show ?thesis by (simp add: round_double_def)
next
  case False
  with assms have pos: "0 < x" by simp
  define k where "k = nat (52 - max (binade x) (- 1022))"
  have e: "max (binade x) (- 1022) - 52 < 0"
    using binade_le [OF pos assms(2)] by simp
  then have q: "pow2 (max (binade x) (- 1022) - 52) = 1 / 2 ^ k"
    by (simp add: pow2_def k_def)
  have rd: "round_double x = rat_of_int (round_half_even (x * 2 ^ k)) / 2 ^ k"
    using False by (simp add: round_double_def q Let_def)
  have "x * 2 ^ k \<le> rat_of_int (255 * 2 ^ k)"
    using assms(2) by simp
  then have hi: "round_half_even (x * 2 ^ k) \<le> 255 * 2 ^ k"
    by (rule round_half_even_le)
  have "rat_of_int 0 \<le> x * 2 ^ k"
    using assms(1) by simp
  then have lo: "0 \<le> round_half_even (x * 2 ^ k)"
    by (rule round_half_even_ge)
  from hi have "rat_of_int (round_half_even (x * 2 ^ k)) \<le> rat_of_int (255 * 2 ^ k)"
    by (simp only: of_int_le_iff)
  then have "rat_of_int (round_half_even (x * 2 ^ k)) \<le> 255 * 2 ^ k"
    by simp
  then have "rat_of_int (round_half_even (x * 2 ^ k)) / 2 ^ k \<le> 255"
    by (simp add: divide_le_eq)
  moreover from lo have "0 \<le> rat_of_int (round_half_even (x * 2 ^ k)) / 2 ^ k"
    by simp
  ultimately show ?thesis
    by (simp add: rd)
qed

lemma js_number_byte:
  assumes "0 \<le> x" "x \<le> 255"
  shows "js_number x = Num (round_double x)"
proof -
  from round_double_byte [OF assms] have "\<bar>round_double x\<bar> \<le> 255"
    by simp
  moreover have "(255 :: rat) < 2 ^ 1024"
    by simp
  ultimately have "\<not> 2 ^ 1024 \<le> \<bar>round_double x\<bar>"
    by linarith
  then show ?thesis
    by (simp add: js_number_def Let_def)
qed

lemma byte_of_int: "0 \<le> n \<Longrightarrow> n < 256 \<Longrightarrow> unat (word_of_int n :: byte) = nat n"
  by (simp add: unat_eq_nat_uint uint_word_of_int take_bit_eq_mod)

lemma velocity_byte:
  assumes "0 \<le> velocity" "velocity * 127 \<le> 255"
  shows "to_uint8 (js_floor (js_number (velocity * 127))) = word_of_int \<lfloor>round_double (velocity * 127)\<rfloor> \<and>
         0 \<le> \<lfloor>round_double (velocity * 127)\<rfloor> \<and> \<lfloor>round_double (velocity * 127)\<rfloor> < 256"
proof -
  have x: "0 \<le> velocity * 127"
    using assms(1) by simp
  from round_double_byte [OF x assms(2)]
  have b: "0 \<le> \<lfloor>round_double (velocity * 127)\<rfloor>" "\<lfloor>round_double (velocity * 127)\<rfloor> < 256"
    by (simp_all add: floor_less_iff)
  then show ?thesis
    by (simp add: js_number_byte [OF x assms(2)] js_trunc_def)
qed

lemma velocity_quotient:
  assumes "0 \<le> b" "b < 256"
  shows "js_divide (Num (rat_of_nat (unat (word_of_int b :: byte)))) 127
         = Num (round_double (rat_of_int b / 127))"
proof -
  have "rat_of_nat (unat (word_of_int b :: byte)) = rat_of_int b"
    using assms by (simp add: byte_of_int)
  moreover have "0 \<le> rat_of_int b / 127" "rat_of_int b / 127 \<le> 255"
    using assms by simp_all
  ultimately show ?thesis
    by (simp add: js_number_byte)
qed

lemma double_0_8: "round_double (4 / 5) = 3602879701896397 / 4503599627370496"
  by code_simp

lemma velocity_byte_0_8: "\<lfloor>round_double (round_double (4 / 5) * 127)\<rfloor> = 101"
  by code_simp

lemma double_101_127: "round_double (101 / 127) = 7163205706526301 / 9007199254740992"
  by code_simp

section \<open>Lemmas on the orchestrator\<close>

lemma queue_inv_empty:
  "rb_buffer rb \<noteq> [] \<Longrightarrow> 0 \<le> rb_writeIndex rb \<Longrightarrow> rb_readIndex rb = rb_writeIndex rb \<Longrightarrow>
   rb_writeIndex rb < 2147483648 \<Longrightarrow> queue_inv rb []"
  by (simp add: queue_inv_def content_def)

lemma queue_inv_write_accepted:
  assumes inv: "queue_inv rb qs" and len: "length d \<le> 255"
    and room: "int (length d) + 1 \<le> int (rb_size rb) - (rb_writeIndex rb - rb_readIndex rb)"
    and rng: "rb_writeIndex rb + int (length d) + 1 < 2147483648"
  shows "fst (RingBuffer_write rb d) \<and> queue_inv (snd (RingBuffer_write rb d)) (qs @ [d]) \<and>
         rb_size (snd (RingBuffer_write rb d)) = rb_size rb \<and>
         rb_readIndex (snd (RingBuffer_write rb d)) = rb_readIndex rb \<and>
         rb_writeIndex (snd (RingBuffer_write rb d)) = rb_writeIndex rb + int (length d) + 1"
proof -
  have nrej: "\<not> int (rb_size rb) - (rb_writeIndex rb - rb_readIndex rb) < int (length d) + 1"
    using room by simp
  have "0 \<le> rb_writeIndex rb"
    using inv by (simp add: queue_inv_def)
  then have "to_int32 (rb_writeIndex rb + (int (length d) + 1)) = rb_writeIndex rb + int (length d) + 1"
    using rng by (simp add: to_int32_id)
  with queue_inv_write [OF inv len nrej rng] RingBuffer_write_frame [of rb d] show ?thesis
    by (simp add: RingBuffer_write_accepted [OF nrej] rb_size_def del: write_data.simps)
qed

lemma dual_note_delivery:
  assumes mode: "sdk_initialized sdk" "sdk_useWorklet sdk" "sdk_worker sdk"
    and shared: "sdk_ringBuffer sdk = Some rb" "wk_commandRingBuffer wk = Some rb"
    and empty: "rb_readIndex rb = rb_writeIndex rb" "0 \<le> rb_writeIndex rb"
    and room: "7 \<le> rb_size rb" and rng: "rb_writeIndex rb + 7 < 2147483648"
    and nt: "0 \<le> midiNote" "midiNote < 256"
    and vel: "0 \<le> velocity" "velocity * 127 \<le> 255"
  shows "wk_moduleInstance
           (snd (foldl dual_step (sdk, wk) [NoteOn midiNote velocity, NoteOff midiNote, ProcessCommands]))
         = wk_moduleInstance wk @
             [Note_on (Num (rat_of_int midiNote))
                (Num (round_double (rat_of_int \<lfloor>round_double (velocity * 127)\<rfloor> / 127))),
              Note_off (Num (rat_of_int midiNote))]"
proof -
  let ?vb = "\<lfloor>round_double (velocity * 127)\<rfloor>"
  let ?on = "[word_of_nat CMD_NOTE_ON, word_of_int midiNote, word_of_int ?vb] :: byte list"
  let ?off = "[word_of_nat CMD_NOTE_OFF, word_of_int midiNote] :: byte list"
  have vbyte: "to_uint8 (js_floor (js_number (velocity * 127))) = word_of_int ?vb"
    and vb: "0 \<le> ?vb" "?vb < 256"
    using velocity_byte [OF vel] by simp_all
  have ne: "rb_buffer rb \<noteq> []"
    using room by (auto simp: rb_size_def)
  have inv0: "queue_inv rb []"
    using ne empty rng by (intro queue_inv_empty) simp_all
  let ?rb1 = "snd (RingBuffer_write rb ?on)"
  have w1: "queue_inv ?rb1 ([] @ [?on])" "rb_size ?rb1 = rb_size rb"
    "rb_readIndex ?rb1 = rb_readIndex rb" "rb_writeIndex ?rb1 = rb_writeIndex rb + int (length ?on) + 1"
    using queue_inv_write_accepted [OF inv0, of ?on] room rng empty by simp_all
  let ?rb2 = "snd (RingBuffer_write ?rb1 ?off)"
  have w2: "queue_inv ?rb2 (([] @ [?on]) @ [?off])"
    using queue_inv_write_accepted [OF w1(1), of ?off] w1(2,3,4) room rng empty by simp
  have rd: "fst (RingBuffer_read ?rb2) = [?on, ?off]"
    using queue_inv_read [OF w2] by simp
  let ?sdk1 = "VitalSDK_noteOn sdk midiNote velocity"
  have s1: "?sdk1 = sdk\<lparr>sdk_ringBuffer := Some ?rb1\<rparr>"
    using mode shared by (simp add: VitalSDK_noteOn_def Let_def split_beta vbyte)
  let ?sdk2 = "VitalSDK_noteOff ?sdk1 midiNote"
  have s2: "?sdk2 = sdk\<lparr>sdk_ringBuffer := Some ?rb2\<rparr>"
    using mode by (simp add: s1 VitalSDK_noteOff_def Let_def split_beta)
  let ?wk2 = "wk\<lparr>wk_commandRingBuffer := Some ?rb2\<rparr>"
  have run: "foldl dual_step (sdk, wk) [NoteOn midiNote velocity, NoteOff midiNote, ProcessCommands]
      = dual_step (?sdk2, ?wk2) ProcessCommands"
    using shared by (simp add: s1 s2 [simplified s1] share_control_def Let_def)
  have cb: "command_callback ?off (command_callback ?on eng)
      = eng @ [Note_on (Num (rat_of_int midiNote)) (Num (round_double (rat_of_int ?vb / 127))),
               Note_off (Num (rat_of_int midiNote))]" for eng
    using nt velocity_quotient [OF vb]
    by (simp add: command_callback_def view_elem_def CMD_NOTE_ON_def CMD_NOTE_OFF_def byte_of_int Let_def
        del: js_divide.simps)
  have "wk_moduleInstance (processCommands ?wk2) = fold command_callback [?on, ?off] (wk_moduleInstance wk)"
    using rd by (simp add: processCommands_def split_beta)
  then show ?thesis
    unfolding run by (simp add: cb Let_def)
qed

lemma dual_ready_note_delivery:
  assumes "0 \<le> midiNote" "midiNote < 256" "0 \<le> velocity" "velocity * 127 \<le> 255"
  shows "wk_moduleInstance
           (snd (foldl dual_step (dual_ready bs calls)
                   [NoteOn midiNote velocity, NoteOff midiNote, ProcessCommands]))
         = calls @
             [Note_on (Num (rat_of_int midiNote))
                (Num (round_double (rat_of_int \<lfloor>round_double (velocity * 127)\<rfloor> / 127))),
              Note_off (Num (rat_of_int midiNote))]"
proof -
  let ?sdk = "fst (dual_ready bs calls)" and ?wk = "snd (dual_ready bs calls)"
  have "sdk_initialized ?sdk" "sdk_useWorklet ?sdk" "sdk_worker ?sdk"
    "sdk_ringBuffer ?sdk = Some (new_RingBuffer 4096)"
    "wk_commandRingBuffer ?wk = Some (new_RingBuffer 4096)"
    "rb_readIndex (new_RingBuffer 4096) = rb_writeIndex (new_RingBuffer 4096)"
    "0 \<le> rb_writeIndex (new_RingBuffer 4096)"
    "7 \<le> rb_size (new_RingBuffer 4096)"
    "rb_writeIndex (new_RingBuffer 4096) + 7 < 2147483648"
    by (simp_all add: dual_ready_def new_VitalSDK_def new_RingBuffer_def rb_size_def)
  from dual_note_delivery [OF this assms] show ?thesis
    by (simp add: dual_ready_def)
qed

lemma worklet_init_ready:
  "VitalSDK_init (worklet_host Reply_ready) (new_VitalSDK bs True) = (Resolved, fst (dual_ready bs calls))"
  by (simp add: VitalSDK_init_def initWorkletAndWorker_def new_VitalSDK_def worklet_host_def
      dual_ready_def Let_def)









section \<open>The claims\<close>

subsection \<open>C1: round trip of the control queue\<close>

text \<open>
  C1 (the code departs from the claim). The claim: for every interleaving of accepted
  \<open>write\<close> calls (payloads of at most 255 bytes) with \<open>read\<close> calls, the payloads
  delivered to the callback are the payloads written, in order, each exactly once, and
  after a drain \<open>readIndex = writeIndex\<close>. The indices only grow, and the
  \<open>Int32Array\<close> header wraps them at \<open>2^31\<close>. On a 4096-byte queue, 8388607
  cycles of writing and draining one 255-byte record leave both indices at
  \<open>2^31 - 256\<close>; the next write is accepted and publishes \<open>writeIndex = -2^31\<close>;
  the drain after it finds \<open>readIndex < writeIndex\<close> false and delivers nothing. That
  record is lost and the indices stay apart. (Below the wrap the round trip holds:
  \<open>rb_run_roundtrip\<close>.)
\<close>

theorem ControlQueue_wrap_loses_record:
  "tr_written (rb_run 4096 (cycles 8388607 @ [Write full_record, Drain]))
     = replicate 8388607 full_record @ [full_record] \<and>
   tr_delivered (rb_run 4096 (cycles 8388607 @ [Write full_record, Drain]))
     = replicate 8388607 full_record \<and>
   rb_writeIndex (tr_rb (rb_run 4096 (cycles 8388607 @ [Write full_record, Drain]))) = - 2147483648 \<and>
   rb_readIndex (tr_rb (rb_run 4096 (cycles 8388607 @ [Write full_record, Drain]))) = 2147483392"
proof -
  let ?t = "rb_run 4096 (cycles 8388607)"
  let ?rb = "tr_rb ?t"
  have run: "rb_run 4096 (cycles 8388607 @ [Write full_record, Drain])
      = rb_step (rb_step ?t (Write full_record)) Drain"
    by (simp add: rb_run_def del: rb_step.simps)
  have st: "rb_writeIndex ?rb = 2147483392" "rb_readIndex ?rb = 2147483392" "rb_size ?rb = 4096"
    "tr_written ?t = replicate 8388607 full_record" "tr_delivered ?t = replicate 8388607 full_record"
    using wrap_state by simp_all
  have "\<not> int (rb_size ?rb) - (rb_writeIndex ?rb - rb_readIndex ?rb) < int (length full_record) + 1"
    using st by simp
  then have acc: "RingBuffer_write ?rb full_record =
      (True, ?rb\<lparr>rb_buffer := write_data (rb_buffer ?rb) (rb_writeIndex ?rb)
                                  (word_of_nat (length full_record) # full_record),
                rb_writeIndex := to_int32 (rb_writeIndex ?rb + (int (length full_record) + 1))\<rparr>)"
    by (rule RingBuffer_write_accepted)
  have w': "to_int32 (rb_writeIndex ?rb + (int (length full_record) + 1)) = - 2147483648"
    using st by (simp add: to_int32_def)
  let ?t1 = "rb_step ?t (Write full_record)"
  have t1: "rb_writeIndex (tr_rb ?t1) = - 2147483648" "rb_readIndex (tr_rb ?t1) = 2147483392"
    "tr_written ?t1 = replicate 8388607 full_record @ [full_record]"
    "tr_delivered ?t1 = replicate 8388607 full_record"
    using acc w' st by (simp_all add: rb_step_Write del: rb_step.simps write_data.simps)
  have loop: "read_loop buf (- 2147483648) 2147483392 temp = (2147483392, temp, [])" for buf temp
    by (simp add: read_loop.simps)
  have "RingBuffer_read (tr_rb ?t1) =
      ([], (tr_rb ?t1)\<lparr>rb_readIndex := to_int32 2147483392,
            rb_tempBuffer := Some (case rb_tempBuffer (tr_rb ?t1) of None \<Rightarrow> replicate 256 0 | Some t \<Rightarrow> t)\<rparr>)"
    using t1 by (simp add: RingBuffer_read_def loop)
  with t1 show ?thesis
    unfolding run by (simp add: rb_step_Drain to_int32_def del: rb_step.simps)
qed

subsection \<open>C2: occupancy\<close>

text \<open>
  C2 (amended). For every state of either ring buffer reached from the empty buffer by
  \<open>write\<close> and \<open>read\<close> calls in which every control record has a payload of at
  most 255 bytes and fewer than \<open>2^31\<close> bytes (frames) are offered in total,
  \<open>0 \<le> writeIndex - readIndex \<le> capacity\<close>; for the audio buffer this is
  \<open>0 \<le> availableRead() \<le> capacity\<close> and
  \<open>availableRead() + availableWrite() = capacity\<close>. Every prefix of such a run is such
  a run, so the bound holds at every point of it.
\<close>

theorem occupancy_invariant:
  assumes "\<forall>op \<in> set ops. small_payload op" and "rb_traffic ops < 2147483648"
    and "0 < cc" and "arb_traffic cc aops < 2147483648"
  shows "0 \<le> rb_writeIndex (tr_rb (rb_run sz ops)) - rb_readIndex (tr_rb (rb_run sz ops)) \<and>
         rb_writeIndex (tr_rb (rb_run sz ops)) - rb_readIndex (tr_rb (rb_run sz ops))
           \<le> int (rb_size (tr_rb (rb_run sz ops))) \<and>
         0 \<le> availableRead (arb_run cc cap aops) \<and>
         availableRead (arb_run cc cap aops) \<le> int (arb_capacity (arb_run cc cap aops)) \<and>
         availableRead (arb_run cc cap aops) + availableWrite (arb_run cc cap aops)
           = int (arb_capacity (arb_run cc cap aops))"
proof -
  obtain qs where "queue_inv (tr_rb (rb_run sz ops)) qs"
    using rb_run_inv [OF assms(1,2)] by blast
  moreover have "arb_inv (arb_run cc cap aops)"
    using assms(3,4) by (intro arb_run_inv) (simp add: new_AudioRingBuffer_def Let_def)
  ultimately show ?thesis
    by (simp add: queue_inv_def arb_inv_def availableRead_def availableWrite_def)
qed

text \<open>The amended claim at a short run of each buffer.\<close>

theorem occupancy_invariant_witness:
  "0 \<le> rb_writeIndex (tr_rb (rb_run 16 [Write [1, 2, 3], Drain, Write [4]]))
        - rb_readIndex (tr_rb (rb_run 16 [Write [1, 2, 3], Drain, Write [4]])) \<and>
   rb_writeIndex (tr_rb (rb_run 16 [Write [1, 2, 3], Drain, Write [4]]))
        - rb_readIndex (tr_rb (rb_run 16 [Write [1, 2, 3], Drain, Write [4]]))
     \<le> int (rb_size (tr_rb (rb_run 16 [Write [1, 2, 3], Drain, Write [4]]))) \<and>
   0 \<le> availableRead (arb_run 2 8 [AWrite (replicate 8 0), ARead ([0, 0], [0, 0]) 2]) \<and>
   availableRead (arb_run 2 8 [AWrite (replicate 8 0), ARead ([0, 0], [0, 0]) 2])
     \<le> int (arb_capacity (arb_run 2 8 [AWrite (replicate 8 0), ARead ([0, 0], [0, 0]) 2])) \<and>
   availableRead (arb_run 2 8 [AWrite (replicate 8 0), ARead ([0, 0], [0, 0]) 2])
     + availableWrite (arb_run 2 8 [AWrite (replicate 8 0), ARead ([0, 0], [0, 0]) 2])
     = int (arb_capacity (arb_run 2 8 [AWrite (replicate 8 0), ARead ([0, 0], [0, 0]) 2]))"
proof -
  have 1: "\<forall>op \<in> set [Write [1, 2, 3], Drain, Write [4]]. small_payload op"
    by simp
  have 2: "rb_traffic [Write [1, 2, 3], Drain, Write [4]] < 2147483648"
    by (simp add: rb_traffic_def)
  have 3: "0 < (2 :: nat)" by simp
  have 4: "arb_traffic 2 [AWrite (replicate 8 0), ARead ([0, 0], [0, 0]) 2] < 2147483648"
    by (simp add: arb_traffic_def)
  from occupancy_invariant [OF 1 2 3 4, of 16 8] show ?thesis .
qed

text \<open>
  C2 as stated fails: \<open>write\<close> accepts a 256-byte payload and stores its length as
  \<open>0\<close>; the drain then reads record lengths out of the payload (\<open>0\<close>, \<open>1\<close>,
  \<open>255\<close>) and leaves \<open>readIndex = 259\<close> beyond \<open>writeIndex = 257\<close>.
\<close>

theorem occupancy_violated_by_oversized_record:
  "\<not> 0 \<le> rb_writeIndex (tr_rb (rb_run 300 [Write oversized, Drain]))
          - rb_readIndex (tr_rb (rb_run 300 [Write oversized, Drain]))"
  using oversized_state by simp

subsection \<open>C3: overflow is rejected whole\<close>

text \<open>
  C3 (amended). A \<open>RingBuffer.write(data)\<close> with free space
  \<open>capacity - (writeIndex - readIndex)\<close> below \<open>data.length + 1\<close> returns
  \<open>false\<close> and leaves the buffer as it was; an \<open>AudioRingBuffer.write\<close> whose frame
  count exceeds \<open>availableWrite()\<close> returns \<open>0\<close> and leaves the buffer as it was.
  In particular, in a state with \<open>readIndex \<le> writeIndex\<close>, a write of
  \<open>capacity + 1\<close> bytes (frames) is rejected whole.
\<close>

theorem overflow_rejection:
  "(int (rb_size rb) - (rb_writeIndex rb - rb_readIndex rb) < int (length data) + 1 \<longrightarrow>
      RingBuffer_write rb data = (False, rb)) \<and>
   (rat_of_int (availableWrite arb)
        < rat_of_nat (length inputInterleaved) / rat_of_nat (arb_channelCount arb) \<longrightarrow>
      AudioRingBuffer_write arb inputInterleaved = (Inr 0, arb)) \<and>
   (rb_readIndex rb \<le> rb_writeIndex rb \<and> length data = rb_size rb + 1 \<longrightarrow>
      RingBuffer_write rb data = (False, rb)) \<and>
   (arb_readIndex arb \<le> arb_writeIndex arb \<and> 0 < arb_channelCount arb \<and>
    length inputInterleaved = (arb_capacity arb + 1) * arb_channelCount arb \<longrightarrow>
      AudioRingBuffer_write arb inputInterleaved = (Inr 0, arb))"
proof (intro conjI impI)
  assume "int (rb_size rb) - (rb_writeIndex rb - rb_readIndex rb) < int (length data) + 1"
  then show "RingBuffer_write rb data = (False, rb)"
    by (rule RingBuffer_write_rejected)
next
  assume "rat_of_int (availableWrite arb)
      < rat_of_nat (length inputInterleaved) / rat_of_nat (arb_channelCount arb)"
  then show "AudioRingBuffer_write arb inputInterleaved = (Inr 0, arb)"
    by (rule AudioRingBuffer_write_rejected)
next
  assume "rb_readIndex rb \<le> rb_writeIndex rb \<and> length data = rb_size rb + 1"
  then have "int (rb_size rb) - (rb_writeIndex rb - rb_readIndex rb) < int (length data) + 1"
    by simp
  then show "RingBuffer_write rb data = (False, rb)"
    by (rule RingBuffer_write_rejected)
next
  assume a: "arb_readIndex arb \<le> arb_writeIndex arb \<and> 0 < arb_channelCount arb \<and>
    length inputInterleaved = (arb_capacity arb + 1) * arb_channelCount arb"
  then have "rat_of_nat (length inputInterleaved)
      = rat_of_nat (arb_capacity arb + 1) * rat_of_nat (arb_channelCount arb)"
    by (simp only: of_nat_mult)
  moreover have "rat_of_nat (arb_channelCount arb) \<noteq> 0"
    using a by simp
  ultimately have "rat_of_nat (length inputInterleaved) / rat_of_nat (arb_channelCount arb)
      = rat_of_nat (arb_capacity arb + 1)"
    by (metis nonzero_mult_div_cancel_right)
  moreover have "availableWrite arb < int (arb_capacity arb + 1)"
    using a by (simp add: availableWrite_def)
  then have "rat_of_int (availableWrite arb) < rat_of_nat (arb_capacity arb + 1)"
    by (metis of_int_less_iff of_int_of_nat_eq)
  ultimately have "rat_of_int (availableWrite arb)
      < rat_of_nat (length inputInterleaved) / rat_of_nat (arb_channelCount arb)"
    by simp
  then show "AudioRingBuffer_write arb inputInterleaved = (Inr 0, arb)"
    by (rule AudioRingBuffer_write_rejected)
qed

text \<open>The amended claim on fresh buffers of 16 bytes and of 4 stereo frames.\<close>

theorem overflow_rejection_witness:
  "RingBuffer_write (new_RingBuffer 16) (replicate 17 0) = (False, new_RingBuffer 16) \<and>
   AudioRingBuffer_write (new_AudioRingBuffer 2 4) (replicate 10 0) = (Inr 0, new_AudioRingBuffer 2 4)"
  using overflow_rejection [of "new_RingBuffer 16" "replicate 17 0" "new_AudioRingBuffer 2 4" "replicate 10 0"]
  by (simp add: new_RingBuffer_def new_AudioRingBuffer_def rb_size_def)

text \<open>
  C3 as stated fails in its last sentence: after the run of C2's counterexample the
  read index is ahead of the write index, the free space computed by \<open>write\<close> is
  \<open>capacity + 2\<close>, and a write of \<open>capacity + 1\<close> bytes returns \<open>true\<close>.
\<close>

theorem capacity_plus_one_accepted:
  "fst (RingBuffer_write (tr_rb (rb_run 300 [Write oversized, Drain]))
         (replicate (rb_size (tr_rb (rb_run 300 [Write oversized, Drain])) + 1) 0))"
proof -
  let ?rb = "tr_rb (rb_run 300 [Write oversized, Drain])"
  have "\<not> int (rb_size ?rb) - (rb_writeIndex ?rb - rb_readIndex ?rb)
      < int (length (replicate (rb_size ?rb + 1) (0 :: byte))) + 1"
    using oversized_state by simp
  then show ?thesis
    by (simp add: RingBuffer_write_accepted del: write_data.simps replicate.simps)
qed

subsection \<open>C4: underrun has no partial effect\<close>

text \<open>
  C4. An \<open>AudioRingBuffer.read(outputChannels, framesToRead)\<close> with \<open>framesToRead\<close>
  above \<open>availableRead()\<close> returns \<open>false\<close>, leaves both indices (the whole buffer)
  unchanged and writes nothing into the output channels.
\<close>

theorem underrun_rejection:
  "availableRead arb < int framesToRead \<Longrightarrow>
   AudioRingBuffer_read arb outputChannels framesToRead = (False, arb, outputChannels)"
  by (rule AudioRingBuffer_read_underrun)

text \<open>C4 on an empty buffer and a quantum of 128 frames.\<close>

theorem underrun_rejection_witness:
  "availableRead (new_AudioRingBuffer 2 4096) < int 128 \<and>
   AudioRingBuffer_read (new_AudioRingBuffer 2 4096) (replicate 128 0, replicate 128 0) 128
     = (False, new_AudioRingBuffer 2 4096, (replicate 128 0, replicate 128 0))"
proof -
  have h: "availableRead (new_AudioRingBuffer 2 4096) < int 128"
    by (simp add: availableRead_def new_AudioRingBuffer_def)
  from h underrun_rejection [OF h] show ?thesis by simp
qed

subsection \<open>C5: gating of the render loop\<close>

text \<open>
  C5 (the code departs from the claim). The claim: in every iteration of \<open>renderLoop\<close>,
  if \<open>availableRead() \<ge> targetAheadFrames\<close> or \<open>availableWrite() < blockSize\<close> no block is
  rendered and nothing is written; otherwise exactly one block is rendered and written.
  The indices of the audio region only grow, and its \<open>Int32Array\<close> header wraps them at
  \<open>2^31\<close>. In the pipeline with buffer size 1024, after 16777217 cycles of one
  \<open>renderLoop\<close> iteration and one output quantum (\<open>2^31\<close> frames rendered and played)
  the write index is \<open>-2147483520\<close> and the read index \<open>2147483520\<close>. In the next
  iteration neither condition holds (\<open>availableRead()\<close> is negative), the engine
  renders a block, and \<open>write\<close> computes the offset \<open>-7936\<close>: \<open>buffer.set\<close> throws a
  RangeError, nothing is written and \<open>renderLoop\<close> is not scheduled again. (While the
  indices are in order the gating holds: \<open>renderLoop_in_order\<close>.)
\<close>

theorem renderLoop_throws_after_wrap:
  "(\<exists>arb. wk_audioRingBuffer (stream_run dsp 16777217) = Some arb \<and>
          arb_writeIndex arb = - 2147483520 \<and> arb_readIndex arb = 2147483520 \<and>
          rat_of_int (availableRead arb) < wk_targetBufferSize (stream_run dsp 16777217) \<and>
          int (wk_bufferSize (stream_run dsp 16777217)) \<le> availableWrite arb) \<and>
   fst (renderLoop dsp (stream_run dsp 16777217)) = Inl RangeError \<and>
   wk_audioRingBuffer (snd (renderLoop dsp (stream_run dsp 16777217)))
     = wk_audioRingBuffer (stream_run dsp 16777217) \<and>
   renders (wk_moduleInstance (snd (renderLoop dsp (stream_run dsp 16777217))))
     = renders (wk_moduleInstance (stream_run dsp 16777217)) @ [128]"
proof -
  let ?wk = "stream_run dsp 16777217"
  have at: "stream_at ?wk (- 2147483520) 2147483520"
    by (rule stream_run_past_wrap)
  then obtain arb where audio: "wk_audioRingBuffer ?wk = Some arb"
    and shape: "arb_channelCount arb = 2" "arb_capacity arb = 4096" "length (arb_buffer arb) = 8192"
    and idx: "arb_writeIndex arb = - 2147483520" "arb_readIndex arb = 2147483520"
    and wk: "wk_isReady ?wk" "wk_bufferSize ?wk = 128" "wk_targetBufferSize ?wk = 1024"
      "wk_commandRingBuffer ?wk = Some (new_RingBuffer 4096)"
    by (auto simp: stream_at_def split: option.splits)
  have idle: "processCommands ?wk = ?wk"
    using wk(4) by (rule processCommands_idle) (simp add: new_RingBuffer_def)
  let ?eng = "wk_moduleInstance ?wk @ [Render (wk_bufferSize ?wk)]"
  let ?block = "interleave (fst (dsp ?eng)) (snd (dsp ?eng)) (wk_bufferSize ?wk)"
  have gate: "rat_of_int (availableRead arb) < wk_targetBufferSize ?wk"
    "int (wk_bufferSize ?wk) \<le> availableWrite arb"
    using shape idx wk by (simp_all add: availableRead_def availableWrite_def)
  have wr: "AudioRingBuffer_write arb ?block = (Inl RangeError, arb)"
    using shape idx by (intro write_throws_past_wrap) (simp_all add: wk)
  from renderLoop_open [OF wk(1) audio idle gate, of dsp]
  have "snd (renderLoop dsp ?wk) = ?wk\<lparr>wk_moduleInstance := ?eng, wk_audioRingBuffer := Some arb\<rparr>"
    and "fst (renderLoop dsp ?wk) = Inl RangeError"
    by (simp_all add: wr)
  with audio idx gate wk(2) show ?thesis
    by (simp add: renders_append)
qed

subsection \<open>C6: the output callback on underrun\<close>

text \<open>
  C6. What \<open>process\<close> does to an output of two channels is one \<open>read\<close> call, for
  exactly \<open>quantumFrames = channelL.length\<close> frames: it returns \<open>true\<close>, and the ring
  buffer and the two channels are as that one call leaves them. On a quantum where this
  read fails, the output channels are therefore as the host handed them over (they are
  not written) and the ring buffer is unchanged.
\<close>

theorem process_underrun:
  "fst (process audioRingBuffer output) \<and>
   process (Some arb) (channelL # channelR # rest)
     = (case AudioRingBuffer_read arb (channelL, channelR) (length channelL) of
          (success, arb', l, r) \<Rightarrow> (True, Some arb', l # r # rest)) \<and>
   (\<not> fst (AudioRingBuffer_read arb (channelL, channelR) (length channelL)) \<longrightarrow>
      process (Some arb) (channelL # channelR # rest) = (True, Some arb, channelL # channelR # rest))"
proof (intro conjI impI)
  show "fst (process audioRingBuffer output)"
    by (simp add: process_def Let_def split_beta split: list.splits option.splits)
  show "process (Some arb) (channelL # channelR # rest)
     = (case AudioRingBuffer_read arb (channelL, channelR) (length channelL) of
          (success, arb', l, r) \<Rightarrow> (True, Some arb', l # r # rest))"
    by (simp add: process_def)
next
  assume fails: "\<not> fst (AudioRingBuffer_read arb (channelL, channelR) (length channelL))"
  show "process (Some arb) (channelL # channelR # rest) = (True, Some arb, channelL # channelR # rest)"
  proof (cases "availableRead arb < int (length channelL)")
    case True
    then show ?thesis
      by (simp add: process_def AudioRingBuffer_read_underrun)
  next
    case False
    with fails AudioRingBuffer_read_ok [OF False] show ?thesis
      by simp
  qed
qed

text \<open>C6 on an empty buffer and a silent stereo quantum of 128 frames.\<close>

theorem process_underrun_witness:
  "\<not> fst (AudioRingBuffer_read (new_AudioRingBuffer 2 4096) (replicate 128 0, replicate 128 0)
           (length (replicate 128 (0 :: f32)))) \<and>
   process (Some (new_AudioRingBuffer 2 4096)) [replicate 128 0, replicate 128 0]
     = (True, Some (new_AudioRingBuffer 2 4096), [replicate 128 0, replicate 128 0])"
proof -
  have h: "\<not> fst (AudioRingBuffer_read (new_AudioRingBuffer 2 4096) (replicate 128 0, replicate 128 0)
           (length (replicate 128 (0 :: f32))))"
    by (simp add: AudioRingBuffer_read_underrun availableRead_def new_AudioRingBuffer_def)
  have "\<not> fst (AudioRingBuffer_read (new_AudioRingBuffer 2 4096) (replicate 128 0, replicate 128 0)
           (length (replicate 128 (0 :: f32)))) \<longrightarrow>
      process (Some (new_AudioRingBuffer 2 4096)) [replicate 128 0, replicate 128 0]
        = (True, Some (new_AudioRingBuffer 2 4096), [replicate 128 0, replicate 128 0])"
    using process_underrun [of None "[]" "new_AudioRingBuffer 2 4096" "replicate 128 0"
        "replicate 128 0" "[]"]
    by blast
  with h show ?thesis by blast
qed

subsection \<open>C7: delivery of note events\<close>

text \<open>
  C7 (amended). In dual-context mode, with the control queue empty, room in it for the
  two records and its write index in \<open>[0, 2^31 - 7)\<close> (fewer than \<open>2^31 - 7\<close> bytes
  of control records carried so far), \<open>noteOn(note, velocity)\<close>
  followed by \<open>noteOff(note)\<close> and a drain by the worker gives the engine exactly two
  calls, in this order: \<open>_note_on(note, v)\<close> and \<open>_note_off(note)\<close>, where \<open>note\<close> is
  the original note (an integer from 0 to 255) and \<open>v\<close> is
  \<open>Math.floor(velocity * 127) / 127\<close> in double arithmetic, the velocity as one byte of
  the record carries it (\<open>0 \<le> velocity\<close> and \<open>velocity * 127 \<le> 255\<close>). For
  \<open>noteOn(60, 0.8)\<close> the engine receives \<open>_note_on(60, 101 / 127)\<close>.
\<close>

theorem note_events_delivered_quantised:
  assumes "sdk_initialized sdk" "sdk_useWorklet sdk" "sdk_worker sdk"
    and "sdk_ringBuffer sdk = Some rb" "wk_commandRingBuffer wk = Some rb"
    and "rb_readIndex rb = rb_writeIndex rb" "0 \<le> rb_writeIndex rb"
    and "7 \<le> rb_size rb" and "rb_writeIndex rb + 7 < 2147483648"
    and "0 \<le> midiNote" "midiNote < 256"
    and "0 \<le> velocity" "velocity * 127 \<le> 255"
  shows "wk_moduleInstance
           (snd (foldl dual_step (sdk, wk) [NoteOn midiNote velocity, NoteOff midiNote, ProcessCommands]))
         = wk_moduleInstance wk @
             [Note_on (Num (rat_of_int midiNote))
                (Num (round_double (rat_of_int \<lfloor>round_double (velocity * 127)\<rfloor> / 127))),
              Note_off (Num (rat_of_int midiNote))]"
  using assms by (rule dual_note_delivery)

text \<open>C7 (amended) for \<open>noteOn(60, 0.8)\<close>, \<open>noteOff(60)\<close> on a fresh pipeline; the
  argument \<open>0.8\<close> is the double nearest to \<open>4/5\<close>.\<close>

theorem note_events_delivered_quantised_witness:
  "wk_moduleInstance
     (snd (foldl dual_step (dual_ready 1024 [])
             [NoteOn 60 (round_double (4 / 5)), NoteOff 60, ProcessCommands]))
   = [Note_on (Num 60) (Num (round_double (101 / 127))), Note_off (Num 60)]"
proof -
  let ?sdk = "fst (dual_ready 1024 [])" and ?wk = "snd (dual_ready 1024 [])"
  have "sdk_initialized ?sdk" "sdk_useWorklet ?sdk" "sdk_worker ?sdk"
    "sdk_ringBuffer ?sdk = Some (new_RingBuffer 4096)"
    "wk_commandRingBuffer ?wk = Some (new_RingBuffer 4096)"
    "rb_readIndex (new_RingBuffer 4096) = rb_writeIndex (new_RingBuffer 4096)"
    "0 \<le> rb_writeIndex (new_RingBuffer 4096)"
    "7 \<le> rb_size (new_RingBuffer 4096)"
    "rb_writeIndex (new_RingBuffer 4096) + 7 < 2147483648"
    "(0 :: int) \<le> 60" "(60 :: int) < 256"
    "0 \<le> round_double (4 / 5)" "round_double (4 / 5) * 127 \<le> 255"
    by (simp_all add: dual_ready_def new_VitalSDK_def new_RingBuffer_def rb_size_def double_0_8)
  from note_events_delivered_quantised [OF this]
  have "wk_moduleInstance
     (snd (foldl dual_step (?sdk, ?wk) [NoteOn 60 (round_double (4 / 5)), NoteOff 60, ProcessCommands]))
   = wk_moduleInstance ?wk @
       [Note_on (Num (rat_of_int 60))
          (Num (round_double (rat_of_int \<lfloor>round_double (round_double (4 / 5) * 127)\<rfloor> / 127))),
        Note_off (Num (rat_of_int 60))]" .
  moreover have "wk_moduleInstance ?wk = []"
    by (simp add: dual_ready_def)
  ultimately show ?thesis
    by (simp add: velocity_byte_0_8)
qed

text \<open>C7 as stated fails: the velocity the engine receives is not \<open>0.8\<close>.\<close>

theorem note_on_velocity_not_exact:
  "wk_moduleInstance
     (snd (foldl dual_step (dual_ready 1024 [])
             [NoteOn 60 (round_double (4 / 5)), NoteOff 60, ProcessCommands]))
   \<noteq> [Note_on (Num 60) (Num (round_double (4 / 5))), Note_off (Num 60)]"
proof -
  have "0 \<le> round_double (4 / 5)" "round_double (4 / 5) * 127 \<le> 255"
    by (simp_all add: double_0_8)
  from dual_ready_note_delivery [OF _ _ this, of 60 1024 "[]"]
  have delivered: "wk_moduleInstance
     (snd (foldl dual_step (dual_ready 1024 [])
             [NoteOn 60 (round_double (4 / 5)), NoteOff 60, ProcessCommands]))
   = [Note_on (Num 60) (Num (round_double (101 / 127))), Note_off (Num 60)]"
    by (simp add: velocity_byte_0_8)
  have "round_double (101 / 127) \<noteq> round_double (4 / 5)"
    by (simp add: double_101_127 double_0_8)
  then show ?thesis
    unfolding delivered by simp
qed

subsection \<open>C8: single-context fallback\<close>




subsection \<open>C9: failure of a preset load\<close>

text \<open>
  C9 (the code departs from the claim). The claim: \<open>loadPreset\<close> of a malformed or
  undecodable payload returns a rejected promise and leaves the engine as it was. In
  dual-context mode \<open>loadPreset\<close> posts the payload to the worker and resolves; the
  worker passes it to \<open>_load_preset\<close>, does not read the return code and posts
  \<open>preset-loaded\<close>. With an engine that rejects the payload (return code \<open>1\<close>)
  the promise still resolves; the legacy path on the same payload rejects.
\<close>

theorem loadPreset_resolves_when_engine_rejects:
  "VitalSDK_loadPreset Some (\<lambda>bytes. 1) (fst (dual_ready 1024 [])) ''{}''
     = (Inr (Some ''{}''), fst (dual_ready 1024 [])) \<and>
   worker_loadPreset (snd (dual_ready 1024 [])) ''{}''
     = ((snd (dual_ready 1024 []))\<lparr>wk_moduleInstance := [Load_preset ''{}'']\<rparr>, [Preset_loaded]) \<and>
   fst (VitalSDK_loadPreset Some (\<lambda>bytes. 1) (degraded legacy_host 1024) ''{}'')
     = Inl (Load_failed 1)"
  by (simp add: VitalSDK_loadPreset_def worker_loadPreset_def dual_ready_def degraded_def
      new_VitalSDK_def Let_def)

subsection \<open>C10: the length prefix is not enforced\<close>

text \<open>
  C10. Every record whose payload is longer than 255 bytes and fits the free space is
  accepted by \<open>write\<close>, which stores its length modulo 256 in the one-byte prefix; no
  later \<open>read\<close> hands that record to the callback (every view it passes has at most
  255 bytes). On a queue that holds the records \<open>qs\<close>, below the wrap of the indices,
  the next \<open>read\<close> delivers \<open>qs\<close>, then in place of the record written its first
  \<open>length mod 256\<close> bytes, then whatever the rest of the payload decodes to.
\<close>

theorem write_accepts_oversized:
  assumes ne: "rb_buffer rb \<noteq> []" and r0: "0 \<le> rb_readIndex rb"
    and rw: "rb_readIndex rb \<le> rb_writeIndex rb"
    and big: "255 < length data"
    and fits: "int (length data) + 1 \<le> int (rb_size rb) - (rb_writeIndex rb - rb_readIndex rb)"
  shows "fst (RingBuffer_write rb data) \<and>
         unat (at_ring (rb_buffer (snd (RingBuffer_write rb data))) (rb_writeIndex rb))
           = length data mod 256 \<and>
         data \<notin> set (fst (RingBuffer_read (snd (RingBuffer_write rb data)))) \<and>
         (\<forall>qs. queue_inv rb qs \<and> rb_writeIndex rb + int (length data) + 1 < 2147483648 \<longrightarrow>
            (\<exists>rest. fst (RingBuffer_read (snd (RingBuffer_write rb data)))
                      = qs @ take (length data mod 256) data # rest))"
proof -
  let ?buf = "rb_buffer rb" and ?w = "rb_writeIndex rb" and ?r = "rb_readIndex rb"
  let ?fr = "word_of_nat (length data) # data :: byte list"
  let ?buf' = "write_data ?buf ?w ?fr"
  let ?rb' = "snd (RingBuffer_write rb data)"
  let ?k = "length data mod 256"
  have acc: "RingBuffer_write rb data =
      (True, rb\<lparr>rb_buffer := ?buf',
                rb_writeIndex := to_int32 (?w + (int (length data) + 1))\<rparr>)"
    using fits by (intro RingBuffer_write_accepted) simp
  have lfr: "length ?fr \<le> length ?buf"
    using fits rw by (simp add: rb_size_def)
  then have "at_ring ?buf' (?w + int 0) = ?fr ! 0"
    using ne r0 rw by (intro write_data_at) simp_all
  then have hd: "at_ring ?buf' ?w = word_of_nat (length data)"
    by (simp del: write_data.simps)
  then have prefix: "unat (at_ring ?buf' ?w) = ?k"
    by (simp add: unat_of_nat del: write_data.simps)
  have ne': "?buf' \<noteq> []"
    using ne length_write_data [of ?buf ?w ?fr] by (metis length_0_conv)
  have buf': "rb_buffer ?rb' = ?buf'" and r': "rb_readIndex ?rb' = ?r"
    using acc by (simp_all del: write_data.simps)
  have "length v \<le> 255" if "v \<in> set (fst (RingBuffer_read ?rb'))" for v
  proof (cases "rb_readIndex ?rb' = rb_writeIndex ?rb'")
    case True
    with that show ?thesis by (simp add: RingBuffer_read_def)
  next
    case False
    let ?temp0 = "case rb_tempBuffer ?rb' of None \<Rightarrow> replicate 256 0 | Some t \<Rightarrow> t"
    from False that
    have "v \<in> set (snd (snd (read_loop (rb_buffer ?rb') (rb_writeIndex ?rb') (rb_readIndex ?rb') ?temp0)))"
      by (simp add: RingBuffer_read_def Let_def split_beta)
    with r0 r' ne' buf' show ?thesis
      by (intro read_loop_short [of "rb_readIndex ?rb'" "rb_buffer ?rb'" v]) simp_all
  qed
  then have absent: "data \<notin> set (fst (RingBuffer_read ?rb'))"
    using big by fastforce
  have delivered: "\<exists>rest. fst (RingBuffer_read ?rb') = qs @ take ?k data # rest"
    if inv: "queue_inv rb qs" and rng: "?w + int (length data) + 1 < 2147483648" for qs
  proof -
    let ?w' = "?w + (int (length data) + 1)"
    from inv have c: "content ?buf ?r (nat (?w - ?r)) = concat (map encode qs)"
      and qs: "\<forall>q \<in> set qs. length q \<le> 255"
      by (simp_all add: queue_inv_def)
    have w': "rb_writeIndex ?rb' = ?w'"
      using acc r0 rw rng by (simp add: to_int32_id del: write_data.simps)
    have fit: "(?w - ?r) + int (length ?fr) \<le> int (length ?buf)"
      using fits by (simp add: rb_size_def)
    have old: "content ?buf' ?r (nat (?w - ?r)) = concat (map encode qs)"
      using content_write_data_old [OF r0 rw ne fit] c by simp
    have new: "content ?buf' ?w (length ?fr) = ?fr"
      using r0 rw ne lfr by (intro content_write_data_new) simp_all
    have "content ?buf' ?w (1 + length data) = content ?buf' ?w 1 @ content ?buf' (?w + int 1) (length data)"
      by (rule content_append)
    with new have pay: "content ?buf' (?w + 1) (length data) = data"
      by (simp add: content_def del: write_data.simps)
    have "content ?buf' (?w + 1) ?k = take ?k (content ?buf' (?w + 1) (length data))"
      by (intro content_take) simp
    with pay have view: "content ?buf' (?w + 1) ?k = take ?k data"
      by simp
    let ?temp0 = "case rb_tempBuffer ?rb' of None \<Rightarrow> replicate 256 0 | Some t \<Rightarrow> t"
    have ww': "?w \<le> ?w'" "?w < ?w'" by simp_all
    obtain temp' where first: "snd (snd (read_loop ?buf' ?w' ?r ?temp0))
        = qs @ snd (snd (read_loop ?buf' ?w' ?w temp'))"
      using read_loop_prefix [OF ne' r0 rw ww'(1) old qs] by blast
    have w0: "0 \<le> ?w" using r0 rw by simp
    obtain rest where "snd (snd (read_loop ?buf' ?w' ?w temp'))
        = content ?buf' (?w + 1) (unat (at_ring ?buf' ?w)) # rest"
      using read_loop_head [OF ne' w0 ww'(2)] by blast
    with first prefix view have loop: "snd (snd (read_loop ?buf' ?w' ?r ?temp0)) = qs @ take ?k data # rest"
      by simp
    have "rb_readIndex ?rb' \<noteq> rb_writeIndex ?rb'"
      using r' w' rw by simp
    then have "fst (RingBuffer_read ?rb') = snd (snd (read_loop ?buf' ?w' ?r ?temp0))"
      using buf' r' w' by (simp add: RingBuffer_read_def Let_def split_beta)
    from this loop have "fst (RingBuffer_read ?rb') = qs @ take ?k data # rest"
      by (rule trans)
    then show ?thesis ..
  qed
  from acc prefix absent delivered show ?thesis
    by (simp del: write_data.simps)
qed

text \<open>C10 at a 256-byte record on a fresh 300-byte queue: the prefix is \<open>0\<close> and the
  drain delivers an empty record, a record of one byte and a record of 255 bytes.\<close>

theorem write_accepts_oversized_witness:
  "fst (RingBuffer_write (new_RingBuffer 300) oversized) \<and>
   unat (at_ring (rb_buffer (snd (RingBuffer_write (new_RingBuffer 300) oversized))) 0) = 0 \<and>
   oversized \<notin> set (fst (RingBuffer_read (snd (RingBuffer_write (new_RingBuffer 300) oversized)))) \<and>
   fst (RingBuffer_read (snd (RingBuffer_write (new_RingBuffer 300) oversized)))
     = [[], [0], replicate 255 0]"
proof -
  have len: "length oversized = 256"
    by (simp add: oversized_def)
  have "rb_buffer (new_RingBuffer 300) \<noteq> []" "0 \<le> rb_readIndex (new_RingBuffer 300)"
    "rb_readIndex (new_RingBuffer 300) \<le> rb_writeIndex (new_RingBuffer 300)"
    "255 < length oversized"
    "int (length oversized) + 1 \<le> int (rb_size (new_RingBuffer 300))
       - (rb_writeIndex (new_RingBuffer 300) - rb_readIndex (new_RingBuffer 300))"
    by (simp_all add: len new_RingBuffer_def rb_size_def)
  from write_accepts_oversized [OF this] oversized_delivered show ?thesis
    by (simp add: len new_RingBuffer_def)
qed

end
